theory Spec2Isabelle
  imports Complex_Main "HOL-Library.Word" "HOL-Library.Multiset"
begin

unbundle bit_operations_syntax

section \<open>LastAttestCache\<close>

text \<open>
  Slots and validator indices are Go \<open>uint64\<close> values. The struct
  \<open>LastAttestCache\<close> holds a read-write mutex and the map \<open>m\<close>; every method takes
  the mutex for its whole body, so each call is one atomic transition of the map and a run
  of concurrent calls is some sequence of such transitions.
\<close>

type_synonym u64 = "64 word"

type_synonym LastAttestCache = "u64 \<rightharpoonup> u64"

definition NewLastAttestCache :: LastAttestCache where
  "NewLastAttestCache = Map.empty"

text \<open>A Go map read of a missing key yields the zero value.\<close>

definition Get :: "LastAttestCache \<Rightarrow> u64 \<Rightarrow> u64" where
  "Get c index = (case c index of None \<Rightarrow> 0 | Some v \<Rightarrow> v)"

definition SetIfGreater :: "LastAttestCache \<Rightarrow> u64 \<Rightarrow> u64 \<Rightarrow> bool \<times> LastAttestCache" where
  "SetIfGreater c index slot =
     (let cur = (case c index of None \<Rightarrow> 0 | Some v \<Rightarrow> v);
          ok = (c index \<noteq> None)
      in if \<not> ok \<or> slot > cur then (True, c(index \<mapsto> slot)) else (False, c))"

text \<open>A serialised run of \<open>SetIfGreater\<close> calls, each given as (index, slot).\<close>

fun setAll :: "LastAttestCache \<Rightarrow> (u64 \<times> u64) list \<Rightarrow> LastAttestCache" where
  "setAll c [] = c"
| "setAll c ((index, slot) # calls) = setAll (snd (SetIfGreater c index slot)) calls"

section \<open>BitfieldDecoder: hexBitlist\<close>

text \<open>
  Go strings are byte sequences, modelled as \<open>string\<close> (a list of 8-bit \<open>char\<close>).
  \<open>strings.ToLower\<close> maps the ASCII letters A-Z to a-z. On a string with a byte outside
  ASCII the library maps runes, and its result always keeps a character that is no
  hexadecimal digit (no rune outside ASCII has a lower-case form among \<open>0-9\<close>, \<open>a-f\<close>,
  \<open>x\<close>); the model leaves such bytes as they are, so that \<open>hexBitlist\<close> rejects the
  string as the code does.
\<close>

type_synonym u8 = "8 word"

definition toLower :: "char \<Rightarrow> char" where
  "toLower c = (let n = (of_char c :: nat) in if 65 \<le> n \<and> n \<le> 90 then char_of (n + 32) else c)"

definition ToLower :: "string \<Rightarrow> string" where
  "ToLower s = map toLower s"

definition TrimPrefix :: "string \<Rightarrow> string \<Rightarrow> string" where
  "TrimPrefix s pre = (if take (length pre) s = pre then drop (length pre) s else s)"

text \<open>
  \<open>encoding/hex\<close>: the table \<open>reverseHexTable\<close> gives the value of a hexadecimal digit
  of either case and \<open>0xff\<close> for every other byte. \<open>hex.DecodeString\<close> reads the
  source two characters at a time, fails with \<open>InvalidByteError\<close> at the first character
  that is no digit, and with \<open>ErrLength\<close> on an odd number of digits. The bytes decoded
  before an error are dropped here, since \<open>hexBitlist\<close> discards them.
\<close>

definition reverseHexTable :: "char \<Rightarrow> u8" where
  "reverseHexTable c =
     (let n = (of_char c :: nat) in
      if 48 \<le> n \<and> n \<le> 57 then of_nat (n - 48)
      else if 97 \<le> n \<and> n \<le> 102 then of_nat (n - 87)
      else if 65 \<le> n \<and> n \<le> 70 then of_nat (n - 55)
      else 255)"

datatype hex_error = InvalidByteError char | ErrLength

fun DecodeString :: "string \<Rightarrow> hex_error + u8 list" where
  "DecodeString [] = Inr []"
| "DecodeString [p] =
     (if reverseHexTable p > 15 then Inl (InvalidByteError p) else Inl ErrLength)"
| "DecodeString (p # q # src) =
     (let a = reverseHexTable p; b = reverseHexTable q
      in if a > 15 then Inl (InvalidByteError p)
         else if b > 15 then Inl (InvalidByteError q)
         else (case DecodeString src of
                 Inl e \<Rightarrow> Inl e
               | Inr dst \<Rightarrow> Inr ((push_bit 4 a OR b) # dst)))"

text \<open>
  \<open>hexBitlist\<close>: the two nested loops append one boolean per bit to \<open>bits\<close>. The
  result \<open>nil\<close> and the empty slice are both the empty list: callers only range over it.
\<close>

definition appendByteBits :: "bool list \<Rightarrow> u8 \<Rightarrow> bool list" where
  "appendByteBits bits by = foldl (\<lambda>acc i. acc @ [(drop_bit i by AND 1) = 1]) bits [0..<8]"

definition hexBitlist :: "string \<Rightarrow> bool list" where
  "hexBitlist hexstr =
     (if hexstr = [] then []
      else (let hs = TrimPrefix (ToLower hexstr) ''0x''
            in case DecodeString hs of
                 Inl err \<Rightarrow> []
               | Inr b \<Rightarrow> foldl appendByteBits [] b))"

text \<open>
  The encoder the round-trip property is stated with: two lower-case hexadecimal digits
  per byte, high nibble first. It is not part of the program.
\<close>

definition hexDigit :: "nat \<Rightarrow> char" where
  "hexDigit n = ''0123456789abcdef'' ! n"

definition hexOfByte :: "u8 \<Rightarrow> string" where
  "hexOfByte by = [hexDigit (unat (drop_bit 4 by)), hexDigit (unat (by AND 15))]"

definition hexOfBytes :: "u8 list \<Rightarrow> string" where
  "hexOfBytes bs = concat (map hexOfByte bs)"

section \<open>VoterDecoder: validatorsForAttestation\<close>

text \<open>
  A decoded JSON value (\<open>interface{}\<close> as \<open>encoding/json\<close> produces it): numbers are
  \<open>float64\<close>, objects are \<open>map[string]interface{}\<close>.
\<close>

datatype jvalue =
    JNull
  | JBool bool
  | JNumber real
  | JString string
  | JArray "jvalue list"
  | JObject "string \<Rightarrow> jvalue option"

type_synonym jobject = "string \<rightharpoonup> jvalue"

text \<open>
  The type assertions \<open>v.(string)\<close>, \<open>v.(map[string]interface{})\<close> and
  \<open>v.([]interface{})\<close> in their two-result form, applied to a map read: the zero value
  and \<open>false\<close> when the key is missing or the value has another type. A \<open>nil\<close> map
  and a \<open>nil\<close> slice are the empty map and the empty list.
\<close>

fun assertString :: "jvalue option \<Rightarrow> string \<times> bool" where
  "assertString (Some (JString s)) = (s, True)"
| "assertString _ = ([], False)"

fun assertObject :: "jvalue option \<Rightarrow> jobject option" where
  "assertObject (Some (JObject obj)) = Some obj"
| "assertObject _ = None"

fun assertArray :: "jvalue option \<Rightarrow> jvalue list" where
  "assertArray (Some (JArray xs)) = xs"
| "assertArray _ = []"

type_synonym committees = "u64 \<rightharpoonup> u64 list"

text \<open>Reading \<open>idxToValidators[ci]\<close>: a missing committee gives the \<open>nil\<close> slice.\<close>

definition committeeAt :: "committees \<Rightarrow> u64 \<Rightarrow> u64 list" where
  "committeeAt idxToValidators ci = (case idxToValidators ci of None \<Rightarrow> [] | Some vals \<Rightarrow> vals)"

text \<open>
  The three loops of the multi-committee path, each appending to its slice. The loop
  index \<open>i\<close> is a Go \<open>int\<close>; \<open>uint64(i)\<close> is \<open>of_nat i\<close>.
\<close>

definition includedCommittees :: "bool list \<Rightarrow> u64 list" where
  "includedCommittees cbits =
     foldl (\<lambda>included (i, b). if b then included @ [of_nat i] else included) []
       (enumerate 0 cbits)"

definition concatCommittees :: "committees \<Rightarrow> u64 list \<Rightarrow> u64 list" where
  "concatCommittees idxToValidators included =
     foldl (\<lambda>concat0 ci. concat0 @ committeeAt idxToValidators ci) [] included"

definition pickVoters :: "bool list \<Rightarrow> u64 list \<Rightarrow> u64 list" where
  "pickVoters aggBits concat0 =
     foldl (\<lambda>voters (i, b). if b \<and> i < length concat0 then voters @ [concat0 ! i] else voters) []
       (enumerate 0 aggBits)"

definition validatorsForAttestation :: "jobject \<Rightarrow> committees \<Rightarrow> u64 list" where
  "validatorsForAttestation att idxToValidators =
     (let aggBitsStr = fst (assertString (att ''aggregation_bits''));
          aggBits = hexBitlist aggBitsStr;
          (cbitsStr, ok) = assertString (att ''committee_bits'')
      in if ok \<and> cbitsStr \<noteq> [] then
           (let cbits = hexBitlist cbitsStr;
                included = includedCommittees cbits;
                concat0 = concatCommittees idxToValidators included
            in pickVoters aggBits concat0)
         else [])"

section \<open>The consensus API as seen by the tracker\<close>

text \<open>
  The tracker talks to the beacon node through \<open>http.Client\<close> and waits on contexts and
  timers. What the outside world answers is an \<open>env\<close>: whether
  \<open>http.NewRequestWithContext\<close> accepts a URL, what the n-th \<open>client.Do\<close> of a run
  returns for the URL asked, which case the n-th back-off \<open>select\<close> takes, and what
  \<open>json.Decoder.Decode\<close> makes of a response body for each of the three target types
  (\<open>None\<close> is a decoding error). What the tracker does to the outside world is recorded
  in a trace of requests sent and back-off timers started.

  \<open>client.Do\<close> returns either an error or a response (never neither), so the tests
  \<open>r != nil\<close> after a \<open>nil\<close> error always succeed.
\<close>

datatype do_result = DoError | DoResponse nat string

datatype io_event = Request string | Backoff nat

type_synonym trace = "io_event list"

record env =
  newRequest :: "string \<Rightarrow> bool"
  roundTrip :: "nat \<Rightarrow> string \<Rightarrow> do_result"
  ctxDoneFirst :: "nat \<Rightarrow> bool"
  decodeBlock :: "string \<Rightarrow> jobject option"
  decodeCommittees :: "string \<Rightarrow> (string \<times> string list) list option"
  decodeHead :: "string \<Rightarrow> string option"

fun isRequest :: "io_event \<Rightarrow> bool" where
  "isRequest (Request url) = True"
| "isRequest (Backoff ms) = False"

definition requestCount :: "trace \<Rightarrow> nat" where
  "requestCount tr = length (filter isRequest tr)"

definition backoffCount :: "trace \<Rightarrow> nat" where
  "backoffCount tr = length (filter (\<lambda>e. \<not> isRequest e) tr)"

text \<open>\<open>client.Do\<close> on a request for \<open>url\<close>: the answer of the world, and the trace extended.\<close>

definition clientDo :: "env \<Rightarrow> string \<Rightarrow> trace \<Rightarrow> do_result \<times> trace" where
  "clientDo e url tr = (roundTrip e (requestCount tr) url, tr @ [Request url])"

text \<open>
  The \<open>select\<close> between \<open>ctx.Done()\<close> and \<open>time.After(backoff)\<close>, the duration in
  milliseconds: true when the context is done first.
\<close>

definition selectBackoff :: "env \<Rightarrow> nat \<Rightarrow> trace \<Rightarrow> bool \<times> trace" where
  "selectBackoff e ms tr = (ctxDoneFirst e (backoffCount tr), tr @ [Backoff ms])"

subsection \<open>Library functions\<close>

text \<open>\<open>strings.TrimRight(s, "/")\<close> removes every trailing slash.\<close>

definition TrimRightSlash :: "string \<Rightarrow> string" where
  "TrimRightSlash s = rev (dropWhile (\<lambda>c. c = CHR ''/'') (rev s))"

text \<open>\<open>strconv.FormatUint(n, 10)\<close>.\<close>

fun formatNat :: "nat \<Rightarrow> string" where
  "formatNat n =
     (if n < 10 then [char_of (48 + n)] else formatNat (n div 10) @ [char_of (48 + n mod 10)])"

declare formatNat.simps [simp del]

definition FormatUint :: "u64 \<Rightarrow> string" where
  "FormatUint n = formatNat (unat n)"

text \<open>
  \<open>strconv.ParseUint(s, 10, 64)\<close>: an error on the empty string, on any character that
  is no decimal digit (signs and underscores included) and on a value that does not fit
  64 bits.
\<close>

definition isDigit :: "char \<Rightarrow> bool" where
  "isDigit c = (48 \<le> (of_char c :: nat) \<and> (of_char c :: nat) \<le> 57)"

definition ParseUint :: "string \<Rightarrow> u64 option" where
  "ParseUint s =
     (if s = [] \<or> \<not> list_all isDigit s then None
      else (let n = foldl (\<lambda>acc c. acc * 10 + (of_char c - 48)) (0 :: nat) s
            in if n < 2 ^ 64 then Some (of_nat n) else None))"

datatype error = RequestError | TransportError | EOF | DecodeError | ParseError | ContextError

section \<open>The tracker\<close>

definition secondsPerSlot :: nat where "secondsPerSlot = 12"

definition slotsPerEpoch :: u64 where "slotsPerEpoch = 32"


text \<open>The three URLs the tracker builds from \<open>consensusAPI\<close>.\<close>

definition headURL :: "string \<Rightarrow> string" where
  "headURL api = (let base = TrimRightSlash api in base @ ''/eth/v2/beacon/blocks/head'')"

definition blockURL :: "string \<Rightarrow> u64 \<Rightarrow> string" where
  "blockURL api slot =
     (let base = TrimRightSlash api in base @ ''/eth/v2/beacon/blocks/'' @ FormatUint slot)"

definition committeesURL :: "string \<Rightarrow> u64 \<Rightarrow> string" where
  "committeesURL api slot =
     (let base = TrimRightSlash api;
          stateID = FormatUint slot
      in base @ ''/eth/v1/beacon/states/'' @ stateID @ ''/committees?slot='' @ FormatUint slot)"

definition getHeadSlot :: "env \<Rightarrow> string \<Rightarrow> trace \<Rightarrow> (error + u64) \<times> trace" where
  "getHeadSlot e api tr =
     (let url = headURL api
      in if \<not> newRequest e url then (Inl RequestError, tr)
         else (case clientDo e url tr of
                 (DoError, tr1) \<Rightarrow> (Inl TransportError, tr1)
               | (DoResponse status body, tr1) \<Rightarrow>
                   if status \<noteq> 200 then (Inl EOF, tr1)
                   else (case decodeHead e body of
                           None \<Rightarrow> (Inl DecodeError, tr1)
                         | Some slotStr \<Rightarrow>
                             if slotStr = [] then (Inl EOF, tr1)
                             else (case ParseUint slotStr of
                                     None \<Rightarrow> (Inl ParseError, tr1)
                                   | Some n \<Rightarrow> (Inr n, tr1)))))"

subsection \<open>CommitteeResolver: fetchCommitteesForSlot\<close>

text \<open>The inner loop over \<open>c.Validators\<close> skips what does not parse.\<close>

definition parseValidators :: "string list \<Rightarrow> u64 list" where
  "parseValidators validators =
     foldl (\<lambda>vals s. case ParseUint s of None \<Rightarrow> vals | Some vi \<Rightarrow> vals @ [vi]) [] validators"

definition buildCommittees :: "(string \<times> string list) list \<Rightarrow> committees" where
  "buildCommittees data =
     foldl (\<lambda>res (index, validators).
              case ParseUint index of
                None \<Rightarrow> res
              | Some idx \<Rightarrow> res(idx \<mapsto> parseValidators validators))
       Map.empty data"

definition fetchCommitteesForSlot :: "env \<Rightarrow> string \<Rightarrow> u64 \<Rightarrow> trace \<Rightarrow> committees \<times> trace" where
  "fetchCommitteesForSlot e api slot tr =
     (let url = committeesURL api slot
      in if \<not> newRequest e url then (Map.empty, tr)
         else (case clientDo e url tr of
                 (DoError, tr1) \<Rightarrow> (Map.empty, tr1)
               | (DoResponse status body, tr1) \<Rightarrow>
                   if status \<noteq> 200 then (Map.empty, tr1)
                   else (case decodeCommittees e body of
                           None \<Rightarrow> (Map.empty, tr1)
                         | Some data \<Rightarrow> (buildCommittees data, tr1))))"

subsection \<open>BlockFetcher and the per-slot pipeline: processSlot\<close>

definition maxAttempts :: nat where
  "maxAttempts = 3"

text \<open>
  \<open>responseOK\<close> is the test \<open>err == nil && r != nil && r.StatusCode == http.StatusOK\<close>
  on what \<open>client.Do\<close> returned, giving the body of the response that passes it.
  \<open>fetchBlock\<close> is the retry loop of \<open>processSlot\<close>, entered with \<open>attempt\<close>. Its result is the body of
  the response with status 200 that ended the loop, or \<open>None\<close> where \<open>processSlot\<close>
  returns 0 (from inside the loop, or after it with \<open>resp == nil\<close>). The back-off is
  \<open>attempt * 100\<close> milliseconds.
\<close>

fun responseOK :: "do_result \<Rightarrow> string option" where
  "responseOK (DoResponse status body) = (if status = 200 then Some body else None)"
| "responseOK DoError = None"

function fetchBlock :: "env \<Rightarrow> string \<Rightarrow> nat \<Rightarrow> trace \<Rightarrow> string option \<times> trace" where
  "fetchBlock e url attempt tr =
     (if attempt \<le> maxAttempts then
        (if \<not> newRequest e url then (None, tr)
         else (case clientDo e url tr of
                 (r, tr1) \<Rightarrow>
                   (case responseOK r of
                      Some body \<Rightarrow> (Some body, tr1)
                    | None \<Rightarrow>
                        if attempt = maxAttempts then (None, tr1)
                        else (case selectBackoff e (attempt * 100) tr1 of
                                (True, tr2) \<Rightarrow> (None, tr2)
                              | (False, tr2) \<Rightarrow> fetchBlock e url (attempt + 1) tr2))))
      else (None, tr))"
  by pat_completeness auto
termination
  by (relation "measure (\<lambda>(e, url, attempt, tr). Suc maxAttempts - attempt)") auto

declare fetchBlock.simps [simp del]

text \<open>The loop over the voters of one attestation, and the loop over the attestations.\<close>

definition applyVoters :: "u64 \<Rightarrow> u64 \<times> LastAttestCache \<Rightarrow> u64 list \<Rightarrow> u64 \<times> LastAttestCache" where
  "applyVoters slot st voters =
     foldl (\<lambda>(updated, c) vi.
              case SetIfGreater c vi slot of
                (True, c') \<Rightarrow> (updated + 1, c')
              | (False, c') \<Rightarrow> (updated, c'))
       st voters"

definition applyAttestations ::
  "committees \<Rightarrow> u64 \<Rightarrow> LastAttestCache \<Rightarrow> jvalue list \<Rightarrow> u64 \<times> LastAttestCache" where
  "applyAttestations idxToValidators slot c attestations =
     foldl (\<lambda>st a.
              case assertObject (Some a) of
                None \<Rightarrow> st
              | Some att \<Rightarrow> applyVoters slot st (validatorsForAttestation att idxToValidators))
       (0, c) attestations"

definition processSlot ::
  "env \<Rightarrow> string \<Rightarrow> LastAttestCache \<Rightarrow> u64 \<Rightarrow> trace \<Rightarrow> u64 \<times> LastAttestCache \<times> trace" where
  "processSlot e api c slot tr =
     (let url = blockURL api slot
      in case fetchBlock e url 1 tr of
           (None, tr1) \<Rightarrow> (0, c, tr1)
         | (Some respBody, tr1) \<Rightarrow>
             (case decodeBlock e respBody of
                None \<Rightarrow> (0, c, tr1)
              | Some payload \<Rightarrow>
                  (case assertObject (payload ''data'') of
                     None \<Rightarrow> (0, c, tr1)
                   | Some data \<Rightarrow>
                       (case assertObject (data ''message'') of
                          None \<Rightarrow> (0, c, tr1)
                        | Some message \<Rightarrow>
                            (case assertObject (message ''body'') of
                               None \<Rightarrow> (0, c, tr1)
                             | Some body \<Rightarrow>
                                 (let attestations = assertArray (body ''attestations'')
                                  in if length attestations = 0 then (0, c, tr1)
                                     else (case fetchCommitteesForSlot e api slot tr1 of
                                             (idxToValidators, tr2) \<Rightarrow>
                                               (case applyAttestations idxToValidators slot c
                                                       attestations of
                                                  (updated, c') \<Rightarrow> (updated, c', tr2)))))))))"

subsection \<open>ContinuousScanner: one tick of Start\<close>

text \<open>
  The slot loop of a tick runs under a context with a timeout of 90 seconds, which
  expires at some point: \<open>k\<close> is the number of checks of \<open>ctx2.Done()\<close> at the head of
  the loop body that find the context not yet done. The state of the loop is the two
  counters, the cache and the trace; \<open>visited\<close> lists the slots \<open>processSlot\<close> was called
  with, in order. The result starts with the flag \<open>aborted\<close>.
\<close>

fun slotsLoop ::
  "env \<Rightarrow> string \<Rightarrow> nat \<Rightarrow> u64 \<Rightarrow> u64 \<Rightarrow> u64 \<times> u64 \<times> LastAttestCache \<times> trace \<times> u64 list
     \<Rightarrow> bool \<times> u64 \<times> u64 \<times> LastAttestCache \<times> trace \<times> u64 list" where
  "slotsLoop e api 0 s headSlot (slots, updates, c, tr, visited) =
     (if s \<le> headSlot then (True, slots, updates, c, tr, visited)
      else (False, slots, updates, c, tr, visited))"
| "slotsLoop e api (Suc k) s headSlot (slots, updates, c, tr, visited) =
     (if s \<le> headSlot then
        (case processSlot e api c s tr of
           (u, c', tr') \<Rightarrow>
             slotsLoop e api k (s + 1) headSlot (slots + 1, updates + u, c', tr', visited @ [s]))
      else (False, slots, updates, c, tr, visited))"





subsection \<open>Example worlds\<close>

text \<open>
  A node that answers every request with status 503 while no context expires, and the
  same node seen under a context that is done before any back-off timer fires.
\<close>

definition deadNode :: env where
  "deadNode =
     \<lparr>newRequest = (\<lambda>url. True), roundTrip = (\<lambda>n url. DoResponse 503 []),
      ctxDoneFirst = (\<lambda>n. False), decodeBlock = (\<lambda>body. None),
      decodeCommittees = (\<lambda>body. None), decodeHead = (\<lambda>body. None)\<rparr>"

definition deadNodeExpired :: env where
  "deadNodeExpired = deadNode\<lparr>ctxDoneFirst := (\<lambda>n. True)\<rparr>"

text \<open>
  A node whose head is slot 100 when first asked and slot 103 afterwards, which has no
  block to serve, and a tracker that has not scanned yet.
\<close>

definition lateNode :: env where
  "lateNode =
     \<lparr>newRequest = (\<lambda>url. True),
      roundTrip = (\<lambda>n url. if url = ''http://node/eth/v2/beacon/blocks/head''
                            then DoResponse 200 (if n = 0 then ''100'' else ''103'')
                            else DoResponse 503 []),
      ctxDoneFirst = (\<lambda>n. False), decodeBlock = (\<lambda>body. None),
      decodeCommittees = (\<lambda>body. None), decodeHead = (\<lambda>body. Some body)\<rparr>"




section \<open>BackfillScanner: Backfill and scanEpochRange\<close>

text \<open>
  \<open>scanEpochRange\<close> runs a producer and \<open>maxConcurrency\<close> workers over the channel
  \<open>jobs\<close> of capacity \<open>2 * maxConcurrency\<close>, all watching the context \<open>ctx\<close>. The
  goroutines interleave, so the function is modelled as a transition system whose steps are
  the communications and checks of each goroutine, driven by a schedule of events.

  The producer is at one of its two \<open>select\<close> statements, with the loop variables
  \<open>epoch\<close> and \<open>slot\<close> (and \<open>produceAborted\<close> at the first one), or at \<open>close(jobs)\<close>,
  at \<open>wg.Wait()\<close>, or it has returned. A worker is at the receive of
  \<open>for slot := range jobs\<close>, at its check of \<open>ctx.Done()\<close> with the slot received, in
  its call of \<open>processSlot\<close>, or it has returned.
\<close>

definition maxConcurrency :: nat where
  "maxConcurrency = 16"

datatype producer = PCheck u64 u64 bool | PSend u64 u64 | PClose | PWait | PReturned

datatype worker = WRecv | WCheck u64 | WRun u64 | WExited

text \<open>
  The state: the goroutines, the buffer of the channel and whether it is closed, whether
  the context is done, and the two counters. Three fields observe the run and are no
  variables of the code: \<open>sent\<close> lists the slots sent on the channel, in order,
  \<open>processed\<close> the calls of \<open>processSlot\<close> that have returned, each with its slot and
  result, and \<open>returned\<close> is what \<open>scanEpochRange\<close> returned, once it has.
\<close>

record scan =
  producer :: producer
  workers :: "worker list"
  jobs :: "u64 list"
  closed :: bool
  ctxDone :: bool
  slotsScanned :: u64
  updates :: u64
  sent :: "u64 list"
  processed :: "(u64 \<times> u64) list"
  returned :: "(u64 \<times> u64 \<times> error option) option"

text \<open>
  Where the producer goes after its second \<open>select\<close>, \<open>aborted\<close> being the value of
  \<open>produceAborted\<close> then: the inner loop ends at \<open>slot == startSlot\<close>, the outer one
  on \<open>produceAborted\<close>, at \<open>endEpoch\<close> and at epoch 0.
\<close>

definition afterSelect :: "u64 \<Rightarrow> u64 \<Rightarrow> u64 \<Rightarrow> bool \<Rightarrow> producer" where
  "afterSelect endEpoch epoch slot aborted =
     (let startSlot = epoch * slotsPerEpoch
      in if slot = startSlot then
           (if aborted then PClose
            else if epoch = endEpoch then PClose
            else if epoch = 0 then PClose
            else (let epoch' = epoch - 1;
                      startSlot' = epoch' * slotsPerEpoch;
                      endSlot' = startSlot' + (slotsPerEpoch - 1)
                  in PCheck epoch' endSlot' False))
         else PCheck epoch (slot - 1) aborted)"

text \<open>
  A step of the producer. At the first \<open>select\<close> it sets \<open>produceAborted\<close> when the
  context is done, and leaves both loops when the flag is set. At the second one it can
  take the case \<open>ctx.Done()\<close> when the context is done and the send when the buffer has
  room; when both can proceed, Go chooses either, and \<open>pick\<close> tells whether it is the
  first. \<open>wg.Wait()\<close> returns when every worker has returned, and the function with it,
  with \<open>ctx.Err()\<close> as its error.
\<close>

definition producerStep :: "u64 \<Rightarrow> bool \<Rightarrow> scan \<Rightarrow> scan option" where
  "producerStep endEpoch pick s =
     (case producer s of
        PCheck epoch slot aborted \<Rightarrow>
          (let produceAborted = (aborted \<or> ctxDone s)
           in if produceAborted then Some (s\<lparr>producer := PClose\<rparr>)
              else Some (s\<lparr>producer := PSend epoch slot\<rparr>))
      | PSend epoch slot \<Rightarrow>
          (let room = (length (jobs s) < 2 * maxConcurrency)
           in if ctxDone s \<and> (pick \<or> \<not> room)
              then Some (s\<lparr>producer := afterSelect endEpoch epoch slot True\<rparr>)
              else if room
              then Some (s\<lparr>producer := afterSelect endEpoch epoch slot False,
                           jobs := jobs s @ [slot], sent := sent s @ [slot]\<rparr>)
              else None)
      | PClose \<Rightarrow> Some (s\<lparr>producer := PWait, closed := True\<rparr>)
      | PWait \<Rightarrow>
          (if list_all (\<lambda>w. w = WExited) (workers s)
           then Some (s\<lparr>producer := PReturned,
                        returned := Some (slotsScanned s, updates s,
                                          if ctxDone s then Some ContextError else None)\<rparr>)
           else None)
      | PReturned \<Rightarrow> None)"

text \<open>
  A step of worker \<open>i\<close>. The receive takes the oldest job, ends the loop when the channel
  is closed and empty, and blocks otherwise. \<open>u\<close> is what \<open>processSlot\<close> returns to the
  worker when the step is the end of that call; any value is allowed, whatever the calls
  running side by side do to the cache.
\<close>

definition workerStep :: "nat \<Rightarrow> u64 \<Rightarrow> scan \<Rightarrow> scan option" where
  "workerStep i u s =
     (if i < length (workers s) then
        (case workers s ! i of
           WRecv \<Rightarrow>
             (case jobs s of
                slot # rest \<Rightarrow> Some (s\<lparr>workers := (workers s)[i := WCheck slot], jobs := rest\<rparr>)
              | [] \<Rightarrow> if closed s then Some (s\<lparr>workers := (workers s)[i := WExited]\<rparr>) else None)
         | WCheck slot \<Rightarrow>
             (if ctxDone s then Some (s\<lparr>workers := (workers s)[i := WExited]\<rparr>)
              else Some (s\<lparr>workers := (workers s)[i := WRun slot]\<rparr>))
         | WRun slot \<Rightarrow>
             Some (s\<lparr>workers := (workers s)[i := WRecv],
                     slotsScanned := slotsScanned s + 1, updates := updates s + u,
                     processed := processed s @ [(slot, u)]\<rparr>)
         | WExited \<Rightarrow> None)
      else None)"

text \<open>
  The events of a schedule: the context becomes done (its deadline passes or it is
  cancelled), the producer takes a step, worker \<open>i\<close> takes a step. A step that cannot be
  taken gives \<open>None\<close>, and nothing happens after the function has returned.
\<close>

datatype event = Expire | Produce bool | Work nat u64

fun step :: "u64 \<Rightarrow> event \<Rightarrow> scan \<Rightarrow> scan option" where
  "step endEpoch Expire s = (if producer s = PReturned then None else Some (s\<lparr>ctxDone := True\<rparr>))"
| "step endEpoch (Produce pick) s = producerStep endEpoch pick s"
| "step endEpoch (Work i u) s = workerStep i u s"

fun run :: "u64 \<Rightarrow> event list \<Rightarrow> scan \<Rightarrow> scan option" where
  "run endEpoch [] s = Some s"
| "run endEpoch (ev # evs) s =
     (case step endEpoch ev s of None \<Rightarrow> None | Some s' \<Rightarrow> run endEpoch evs s')"

text \<open>The state in which \<open>scanEpochRange\<close> enters the producer loop, the workers started.\<close>

definition scanStart :: "u64 \<Rightarrow> scan" where
  "scanStart startEpoch =
     (let startSlot = startEpoch * slotsPerEpoch;
          endSlot = startSlot + (slotsPerEpoch - 1)
      in \<lparr>producer = PCheck startEpoch endSlot False,
          workers = replicate maxConcurrency WRecv,
          jobs = [], closed = False, ctxDone = False, slotsScanned = 0, updates = 0,
          sent = [], processed = [], returned = None\<rparr>)"

text \<open>
  \<open>scanEpochRange\<close> under a schedule: what it returns, or \<open>None\<close> when the schedule is
  none of its runs or ends before it returns.
\<close>

definition scanEpochRange :: "event list \<Rightarrow> u64 \<Rightarrow> u64 \<Rightarrow> (u64 \<times> u64 \<times> error option) option" where
  "scanEpochRange evs startEpoch endEpoch =
     (case run endEpoch evs (scanStart startEpoch) of None \<Rightarrow> None | Some s \<Rightarrow> returned s)"

text \<open>
  The epochs \<open>Backfill\<close> passes to \<open>scanEpochRange\<close>: \<open>headEpoch\<close> and its variable
  \<open>end\<close>, here \<open>endEpoch\<close>.
\<close>

definition backfillRange :: "u64 \<Rightarrow> u64 \<times> u64" where
  "backfillRange headSlot =
     (let headEpoch = headSlot div slotsPerEpoch;
          endEpoch = (if headEpoch \<ge> 2 then headEpoch - 2 else 0)
      in (headEpoch, endEpoch))"

definition Backfill :: "env \<Rightarrow> string \<Rightarrow> trace \<Rightarrow> event list \<Rightarrow> error option option" where
  "Backfill e api tr evs =
     (case getHeadSlot e api tr of
        (Inl err, tr1) \<Rightarrow> Some (Some err)
      | (Inr headSlot, tr1) \<Rightarrow>
          (case backfillRange headSlot of
             (headEpoch, endEpoch) \<Rightarrow>
               (case scanEpochRange evs headEpoch endEpoch of
                  None \<Rightarrow> None
                | Some (slots, upd, err) \<Rightarrow> Some err)))"

subsection \<open>The enumeration of the producer\<close>

text \<open>
  The slots the producer sends from the position \<open>epoch\<close>, \<open>slot\<close> of its loops on when
  the context is never done: the slot, then those from the position after it.
\<close>

function produceAll :: "u64 \<Rightarrow> u64 \<Rightarrow> u64 \<Rightarrow> u64 list" where
  "produceAll endEpoch epoch slot =
     slot # (case afterSelect endEpoch epoch slot False of
               PCheck epoch' slot' aborted \<Rightarrow> produceAll endEpoch epoch' slot'
             | _ \<Rightarrow> [])"
  by pat_completeness auto
termination
proof (relation "measures [\<lambda>(endEpoch, epoch, slot). unat epoch,
    \<lambda>(endEpoch, epoch, slot). unat (slot - epoch * slotsPerEpoch)]", goal_cases)
  case 1
  show ?case by simp
next
  case (2 endEpoch epoch slot epoch' slot' aborted)
  then have "(slot \<noteq> epoch * slotsPerEpoch \<and> epoch' = epoch \<and> slot' = slot - 1)
      \<or> (epoch \<noteq> 0 \<and> epoch' = epoch - 1)"
    by (simp add: afterSelect_def Let_def split: if_splits)
  then consider (same) "slot \<noteq> epoch * slotsPerEpoch" "epoch' = epoch" "slot' = slot - 1"
    | (down) "epoch \<noteq> 0" "epoch' = epoch - 1"
    by blast
  then show ?case
  proof cases
    case same
    have nz: "slot - epoch * slotsPerEpoch \<noteq> 0" using same(1) by simp
    have eq: "slot - 1 - epoch * slotsPerEpoch = slot - epoch * slotsPerEpoch - 1" by simp
    have "unat (slot - 1 - epoch * slotsPerEpoch) < unat (slot - epoch * slotsPerEpoch)"
      unfolding eq using nz by (simp add: unat_minus_one unat_gt_0)
    with same show ?thesis by simp
  next
    case down
    then have "unat (epoch - 1) < unat epoch"
      by (simp add: unat_minus_one unat_gt_0)
    with down show ?thesis by simp
  qed
qed

declare produceAll.simps [simp del]

text \<open>
  The window as the specification words it: the epochs from \<open>headEpoch\<close> down to
  \<open>max(0, headEpoch - 2)\<close>, newest first, and in each epoch its 32 slots from the highest
  to the lowest.
\<close>

definition epochWindow :: "u64 \<Rightarrow> u64 list" where
  "epochWindow headEpoch = map (\<lambda>i. headEpoch - of_nat i) [0..<Suc (min 2 (unat headEpoch))]"

definition epochSlots :: "u64 \<Rightarrow> u64 list" where
  "epochSlots epoch = map (\<lambda>i. epoch * 32 + 31 - of_nat i) [0..<32]"

definition windowSlots :: "u64 \<Rightarrow> u64 list" where
  "windowSlots headEpoch = concat (map epochSlots (epochWindow headEpoch))"

subsection \<open>Invariants and a measure of the scan\<close>

text \<open>The slots workers hold: received and not yet processed or dropped.\<close>

fun held :: "worker \<Rightarrow> u64 multiset" where
  "held (WCheck slot) = {#slot#}"
| "held (WRun slot) = {#slot#}"
| "held _ = {#}"

definition inFlight :: "worker list \<Rightarrow> u64 multiset" where
  "inFlight ws = sum_mset (image_mset held (mset ws))"

fun running :: "worker \<Rightarrow> bool" where
  "running (WRun slot) = True"
| "running _ = False"

text \<open>
  What holds in every state of a run of \<open>scanEpochRange endEpoch\<close> whose producer is to
  send \<open>full\<close> when nothing aborts it. For the producer: what it has sent and what it
  would send from its position on make up \<open>full\<close>, unless it has seen the context done.
\<close>

definition producerInv :: "u64 \<Rightarrow> u64 list \<Rightarrow> producer \<Rightarrow> u64 list \<Rightarrow> bool \<Rightarrow> bool" where
  "producerInv endEpoch full p snt dn =
     (case p of
        PCheck epoch slot aborted \<Rightarrow>
          if aborted then dn else snt @ produceAll endEpoch epoch slot = full
      | PSend epoch slot \<Rightarrow> snt @ produceAll endEpoch epoch slot = full
      | _ \<Rightarrow> snt = full \<or> dn)"

definition scanInv :: "u64 \<Rightarrow> u64 list \<Rightarrow> scan \<Rightarrow> bool" where
  "scanInv endEpoch full s \<longleftrightarrow>
     length (workers s) = maxConcurrency
     \<and> (\<exists>rest. sent s @ rest = full)
     \<and> producerInv endEpoch full (producer s) (sent s) (ctxDone s)
     \<and> mset (jobs s) + inFlight (workers s) + mset (map fst (processed s)) \<subseteq># mset (sent s)
     \<and> (\<not> ctxDone s \<longrightarrow>
          mset (jobs s) + inFlight (workers s) + mset (map fst (processed s)) = mset (sent s))
     \<and> slotsScanned s = of_nat (length (processed s))
     \<and> updates s = sum_list (map snd (processed s))
     \<and> (closed s \<longleftrightarrow> producer s = PWait \<or> producer s = PReturned)
     \<and> (WExited \<in> set (workers s) \<and> \<not> ctxDone s \<longrightarrow> closed s \<and> jobs s = [])
     \<and> (producer s = PReturned \<longrightarrow>
          list_all (\<lambda>w. w = WExited) (workers s)
          \<and> returned s = Some (slotsScanned s, updates s,
                                if ctxDone s then Some ContextError else None))
     \<and> (producer s \<noteq> PReturned \<longrightarrow> returned s = None)"

text \<open>A bound on the steps the goroutines can still take.\<close>

fun workerWeight :: "worker \<Rightarrow> nat" where
  "workerWeight WRecv = 1"
| "workerWeight (WCheck slot) = 3"
| "workerWeight (WRun slot) = 2"
| "workerWeight WExited = 0"

fun producerWeight :: "u64 \<Rightarrow> producer \<Rightarrow> nat" where
  "producerWeight endEpoch (PCheck epoch slot aborted) = 5 * length (produceAll endEpoch epoch slot) + 2"
| "producerWeight endEpoch (PSend epoch slot) = 5 * length (produceAll endEpoch epoch slot) + 1"
| "producerWeight endEpoch PClose = 2"
| "producerWeight endEpoch PWait = 1"
| "producerWeight endEpoch PReturned = 0"

definition scanWeight :: "u64 \<Rightarrow> scan \<Rightarrow> nat" where
  "scanWeight endEpoch s =
     producerWeight endEpoch (producer s) + 3 * length (jobs s)
       + sum_list (map workerWeight (workers s))"

text \<open>Whether the producer is at its send, as a number.\<close>

fun sendPending :: "producer \<Rightarrow> nat" where
  "sendPending (PSend epoch slot) = 1"
| "sendPending _ = 0"

text \<open>
  The slots the producer goes on with after the last slot of \<open>epoch\<close>, when the context is
  never done.
\<close>

definition nextEpochs :: "u64 \<Rightarrow> u64 \<Rightarrow> u64 list" where
  "nextEpochs endEpoch epoch =
     (if epoch = endEpoch \<or> epoch = 0 then []
      else produceAll endEpoch (epoch - 1) ((epoch - 1) * 32 + 31))"

subsection \<open>Example schedules\<close>

text \<open>
  A schedule without expiry in which worker 0 processes each of \<open>n\<close> slots as soon as it
  is sent, every call of \<open>processSlot\<close> returning 7, and then all workers leave and the
  function returns. A schedule in which the context expires between the first check of
  the producer and its send, which the \<open>select\<close> then still takes.
\<close>

definition calmSchedule :: "nat \<Rightarrow> event list" where
  "calmSchedule n =
     concat (replicate n [Produce False, Produce False, Work 0 0, Work 0 0, Work 0 7])
       @ [Produce False] @ map (\<lambda>i. Work i 0) [0..<16] @ [Produce False]"

definition racingSchedule :: "event list" where
  "racingSchedule = [Produce False, Expire, Produce False]"

(*DEFS-END*)

section \<open>Properties of the cache\<close>

lemma Get_SetIfGreater_mono: "Get c v \<le> Get (snd (SetIfGreater c i s)) v"
  by (auto simp: Get_def SetIfGreater_def Let_def split: option.splits)

lemma Get_SetIfGreater_ge: "s \<le> Get (snd (SetIfGreater c i s)) i"
  by (auto simp: Get_def SetIfGreater_def Let_def split: option.splits)

lemma Get_setAll_mono: "Get c v \<le> Get (setAll c calls) v"
proof (induction calls arbitrary: c)
  case Nil
  show ?case by simp
next
  case (Cons call calls)
  obtain i s where call: "call = (i, s)" by (cases call)
  have "Get c v \<le> Get (snd (SetIfGreater c i s)) v"
    by (rule Get_SetIfGreater_mono)
  also have "\<dots> \<le> Get (setAll (snd (SetIfGreater c i s)) calls) v"
    by (rule Cons.IH)
  finally show ?case by (simp add: call)
qed

lemma setAll_append: "setAll c (xs @ ys) = setAll (setAll c xs) ys"
  by (induction xs arbitrary: c) auto

lemma Get_setAll_ge: "(v, s) \<in> set calls \<Longrightarrow> s \<le> Get (setAll c calls) v"
proof (induction calls arbitrary: c)
  case Nil
  then show ?case by simp
next
  case (Cons call calls)
  obtain i t where call: "call = (i, t)" by (cases call)
  show ?case
  proof (cases "(v, s) = call")
    case True
    then have "s \<le> Get (snd (SetIfGreater c i t)) v"
      using Get_SetIfGreater_ge [of t c i] by (simp add: call)
    also have "\<dots> \<le> Get (setAll (snd (SetIfGreater c i t)) calls) v"
      by (rule Get_setAll_mono)
    finally show ?thesis by (simp add: call)
  next
    case False
    with Cons.prems have "(v, s) \<in> set calls" by auto
    then show ?thesis using Cons.IH by (simp add: call)
  qed
qed

lemma Get_SetIfGreater_eq:
  "Get (snd (SetIfGreater c j t)) i = (if j = i then max (Get c i) t else Get c i)"
  by (auto simp: Get_def SetIfGreater_def Let_def max_def split: option.splits)

lemma finite_slots: "finite {s. (i, s) \<in> set calls}"
proof -
  have "{s. (i, s) \<in> set calls} \<subseteq> snd ` set calls" by force
  then show ?thesis by (rule finite_subset) simp
qed

lemma Get_setAll_Max:
  "Get (setAll c calls) i = Max (insert (Get c i) {s. (i, s) \<in> set calls})"
proof (induction calls arbitrary: c)
  case Nil
  show ?case by simp
next
  case (Cons call calls)
  obtain j t where call: "call = (j, t)" by (cases call)
  let ?S = "{s. (i, s) \<in> set calls}"
  have fin: "finite ?S" by (rule finite_slots)
  have IH: "Get (setAll (snd (SetIfGreater c j t)) calls) i
      = Max (insert (Get (snd (SetIfGreater c j t)) i) ?S)"
    by (rule Cons.IH)
  show ?case
  proof (cases "j = i")
    case True
    have S: "{s. (i, s) \<in> set (call # calls)} = insert t ?S"
      using True by (auto simp: call)
    have G: "Get (snd (SetIfGreater c j t)) i = max (Get c i) t"
      using True by (simp add: Get_SetIfGreater_eq)
    have "Max (insert (max (Get c i) t) ?S) = Max (insert (Get c i) (insert t ?S))"
      using fin by (cases "?S = {}") (simp_all add: max.assoc)
    then have "Get (setAll (snd (SetIfGreater c j t)) calls) i
        = Max (insert (Get c i) {s. (i, s) \<in> set (call # calls)})"
      unfolding IH G S .
    then show ?thesis by (simp only: call setAll.simps)
  next
    case False
    have S: "{s. (i, s) \<in> set (call # calls)} = ?S"
      using False by (auto simp: call)
    show ?thesis using IH False by (simp add: call S Get_SetIfGreater_eq)
  qed
qed

lemma Get_New: "Get NewLastAttestCache i = 0"
  by (simp add: Get_def NewLastAttestCache_def)

text \<open>
  Claim C1 (monotonicity). A single \<open>SetIfGreater\<close> call never lowers what \<open>Get\<close>
  returns for any validator index; along any serialised run of calls the value read after
  a prefix of the run is at most the value read after the whole run; and every slot
  applied for an index during the prefix stays a lower bound of what \<open>Get\<close> returns for
  that index at every later point of the run.
\<close>

theorem cache_monotone:
  "Get c v \<le> Get (snd (SetIfGreater c i s)) v
   \<and> Get (setAll c pre) v \<le> Get (setAll c (pre @ post)) v
   \<and> ((v, s') \<in> set pre \<longrightarrow> s' \<le> Get (setAll c (pre @ post)) v)"
proof -
  have one: "Get c v \<le> Get (snd (SetIfGreater c i s)) v"
    by (rule Get_SetIfGreater_mono)
  have run: "Get (setAll c pre) v \<le> Get (setAll c (pre @ post)) v"
    unfolding setAll_append by (rule Get_setAll_mono)
  have keep: "(v, s') \<in> set pre \<longrightarrow> s' \<le> Get (setAll c (pre @ post)) v"
  proof
    assume "(v, s') \<in> set pre"
    then have "(v, s') \<in> set (pre @ post)" by simp
    then show "s' \<le> Get (setAll c (pre @ post)) v" by (rule Get_setAll_ge)
  qed
  from one run keep show ?thesis by blast
qed

theorem cache_monotone_witness:
  "Get NewLastAttestCache 7 \<le> Get (snd (SetIfGreater NewLastAttestCache 7 3)) 7
   \<and> Get (setAll NewLastAttestCache [(7, 5)]) 7
       \<le> Get (setAll NewLastAttestCache ([(7, 5)] @ [(7, 3), (8, 9)])) 7
   \<and> (7, 5) \<in> set [(7 :: u64, 5 :: u64)]
   \<and> 5 \<le> Get (setAll NewLastAttestCache ([(7, 5)] @ [(7, 3), (8, 9)])) 7"
  using cache_monotone [of NewLastAttestCache 7 7 3 "[(7, 5)]" "[(7, 3), (8, 9)]" 5]
  by simp

text \<open>
  Claim C4 (contract of the cache). \<open>Get\<close> returns 0 for an index with no entry, in
  particular for an index no call of a run from the empty cache has stored; for an index
  that some call of the run has stored it returns the highest slot among those calls.
  \<open>SetIfGreater\<close> returns true exactly when the index has no entry or the slot is
  strictly greater than the current value, and exactly then the entry becomes the slot;
  otherwise the map is unchanged.
\<close>

theorem cache_contract:
  "(c index = None \<longrightarrow> Get c index = 0)
   \<and> ((\<forall>s. (index, s) \<notin> set calls) \<longrightarrow> Get (setAll NewLastAttestCache calls) index = 0)
   \<and> ((\<exists>s. (index, s) \<in> set calls) \<longrightarrow>
        Get (setAll NewLastAttestCache calls) index = Max {s. (index, s) \<in> set calls})
   \<and> fst (SetIfGreater c index slot) = (c index = None \<or> Get c index < slot)
   \<and> snd (SetIfGreater c index slot)
        = (if c index = None \<or> Get c index < slot then c(index \<mapsto> slot) else c)"
proof -
  have a: "c index = None \<longrightarrow> Get c index = 0" by (simp add: Get_def)
  have b: "(\<forall>s. (index, s) \<notin> set calls) \<longrightarrow> Get (setAll NewLastAttestCache calls) index = 0"
    by (simp add: Get_setAll_Max Get_New)
  have c: "(\<exists>s. (index, s) \<in> set calls) \<longrightarrow>
        Get (setAll NewLastAttestCache calls) index = Max {s. (index, s) \<in> set calls}"
  proof
    assume "\<exists>s. (index, s) \<in> set calls"
    then have ne: "{s. (index, s) \<in> set calls} \<noteq> {}" by blast
    have "Max (insert 0 {s. (index, s) \<in> set calls}) = max 0 (Max {s. (index, s) \<in> set calls})"
      using finite_slots ne by (rule Max_insert)
    then show "Get (setAll NewLastAttestCache calls) index = Max {s. (index, s) \<in> set calls}"
      by (simp add: Get_setAll_Max Get_New max_def)
  qed
  have d: "fst (SetIfGreater c index slot) = (c index = None \<or> Get c index < slot)"
    by (auto simp: SetIfGreater_def Get_def Let_def)
  have e: "snd (SetIfGreater c index slot)
      = (if c index = None \<or> Get c index < slot then c(index \<mapsto> slot) else c)"
    by (auto simp: SetIfGreater_def Get_def Let_def)
  from a b c d e show ?thesis by blast
qed

theorem cache_contract_witness:
  "NewLastAttestCache 4 = None \<and> Get NewLastAttestCache 4 = 0
   \<and> (\<forall>s. (5, s) \<notin> set [(4 :: u64, 6 :: u64), (9, 2), (4, 11), (4, 3)])
   \<and> Get (setAll NewLastAttestCache [(4, 6), (9, 2), (4, 11), (4, 3)]) 5 = 0
   \<and> (\<exists>s. (4, s) \<in> set [(4 :: u64, 6 :: u64), (9, 2), (4, 11), (4, 3)])
   \<and> Get (setAll NewLastAttestCache [(4, 6), (9, 2), (4, 11), (4, 3)]) 4 = 11
   \<and> fst (SetIfGreater NewLastAttestCache 4 0)
   \<and> snd (SetIfGreater NewLastAttestCache 4 0) = NewLastAttestCache(4 \<mapsto> 0)"
proof -
  let ?calls = "[(4 :: u64, 6 :: u64), (9, 2), (4, 11), (4, 3)]"
  have S: "{s. (4, s) \<in> set ?calls} = {6, 11, 3}" by auto
  have ex: "\<exists>s. (4, s) \<in> set ?calls" by auto
  have no: "\<forall>s. (5, s) \<notin> set ?calls" by auto
  have N: "NewLastAttestCache (4 :: u64) = None" by (simp add: NewLastAttestCache_def)
  note t4 = cache_contract [of NewLastAttestCache 4 ?calls 0]
  note t5 = cache_contract [of NewLastAttestCache 5 ?calls 0]
  from t4 ex have "Get (setAll NewLastAttestCache ?calls) 4 = Max {s. (4, s) \<in> set ?calls}"
    by blast
  then have g4: "Get (setAll NewLastAttestCache ?calls) 4 = 11"
    unfolding S by simp
  from t5 no have g5: "Get (setAll NewLastAttestCache ?calls) 5 = 0" by blast
  from t4 N have g0: "Get NewLastAttestCache 4 = 0" by blast
  from t4 N have f: "fst (SetIfGreater NewLastAttestCache 4 0)" by blast
  from t4 N have s: "snd (SetIfGreater NewLastAttestCache 4 0) = NewLastAttestCache(4 \<mapsto> 0)"
    by simp
  from N g0 no g5 ex g4 f s show ?thesis by blast
qed

section \<open>Properties of the bit-list decoder\<close>

lemma bit_test: "((drop_bit i (w :: u8) AND 1) = 1) = bit w i"
  by (simp add: and_one_eq bit_iff_odd_drop_bit mod_2_eq_odd)

lemma appendByteBits_eq: "appendByteBits acc by = acc @ map (bit by) [0..<8]"
proof -
  have "foldl (\<lambda>acc i. acc @ [(drop_bit i by AND 1) = 1]) acc is = acc @ map (bit by) is"
    for "is" acc
    by (induction "is" arbitrary: acc) (simp_all add: bit_test)
  then show ?thesis by (simp only: appendByteBits_def)
qed

lemma foldl_appendByteBits:
  "foldl appendByteBits acc bs = acc @ concat (map (\<lambda>by. map (bit by) [0..<8]) bs)"
  by (induction bs arbitrary: acc) (simp_all add: appendByteBits_eq)

lemma hexDigit_table:
  "list_all (\<lambda>n. reverseHexTable (hexDigit n) = of_nat n \<and> \<not> reverseHexTable (hexDigit n) > 15
      \<and> toLower (hexDigit n) = hexDigit n) [0..<16]"
  by code_simp

lemma hexDigit_props:
  assumes "n < 16"
  shows reverseHexTable_hexDigit: "reverseHexTable (hexDigit n) = of_nat n"
    and reverseHexTable_nibble: "\<not> reverseHexTable (hexDigit n) > 15"
    and toLower_hexDigit: "toLower (hexDigit n) = hexDigit n"
proof -
  from assms have "n \<in> set [0..<16]" by simp
  with hexDigit_table
  have "reverseHexTable (hexDigit n) = of_nat n \<and> \<not> reverseHexTable (hexDigit n) > 15
      \<and> toLower (hexDigit n) = hexDigit n"
    unfolding list_all_iff by blast
  then show "reverseHexTable (hexDigit n) = of_nat n"
    and "\<not> reverseHexTable (hexDigit n) > 15"
    and "toLower (hexDigit n) = hexDigit n"
    by blast+
qed

lemma nibbles: "push_bit 4 (drop_bit 4 by) OR (by AND 15) = (by :: u8)"
proof -
  have "(15 :: u8) = mask 4" by (simp add: mask_eq_exp_minus_1)
  then show ?thesis
    by (simp add: bit_eq_iff bit_simps) (auto simp: bit_simps)
qed

lemma hi_lt: "unat (drop_bit 4 (by :: u8)) < 16"
proof -
  have "unat by < 256" using unsigned_less [of "by"] by simp
  then show ?thesis by (simp add: drop_bit_eq_div unat_div)
qed

lemma lo_lt: "unat ((by :: u8) AND 15) < 16"
proof -
  have "(15 :: u8) = mask 4" by (simp add: mask_eq_exp_minus_1)
  then have "by AND 15 = take_bit 4 by" by (simp add: take_bit_eq_mask)
  then show ?thesis by (simp add: take_bit_eq_mod unat_mod)
qed

lemma DecodeString_hexOfByte:
  "DecodeString (hexOfByte by @ src) =
     (case DecodeString src of Inl e \<Rightarrow> Inl e | Inr dst \<Rightarrow> Inr (by # dst))"
proof -
  let ?h = "hexDigit (unat (drop_bit 4 by))" and ?l = "hexDigit (unat (by AND 15))"
  have h: "\<not> reverseHexTable ?h > 15" "reverseHexTable ?h = drop_bit 4 by"
    using hi_lt [of "by"] reverseHexTable_nibble apply blast
    using hi_lt [of "by"] by (simp add: reverseHexTable_hexDigit)
  have l: "\<not> reverseHexTable ?l > 15" "reverseHexTable ?l = by AND 15"
    using lo_lt [of "by"] reverseHexTable_nibble apply blast
    using lo_lt [of "by"] by (simp add: reverseHexTable_hexDigit)
  have "DecodeString (?h # ?l # src) =
     (case DecodeString src of Inl e \<Rightarrow> Inl e | Inr dst \<Rightarrow> Inr (by # dst))"
    unfolding DecodeString.simps Let_def using h l
    by (cases "DecodeString src") (simp_all add: nibbles)
  then show ?thesis by (simp add: hexOfByte_def)
qed

lemma DecodeString_hexOfBytes: "DecodeString (hexOfBytes bs) = Inr bs"
  by (induction bs) (simp_all add: hexOfBytes_def DecodeString_hexOfByte)

lemma ToLower_hexOfBytes: "ToLower (hexOfBytes bs) = hexOfBytes bs"
  using hi_lt lo_lt
  by (induction bs) (simp_all add: hexOfBytes_def ToLower_def hexOfByte_def toLower_hexDigit)

lemma hexBitlist_roundtrip:
  "hexBitlist (''0x'' @ hexOfBytes bs) = concat (map (\<lambda>by. map (bit by) [0..<8]) bs)"
proof -
  have "ToLower (''0x'' @ hexOfBytes bs) = ''0x'' @ hexOfBytes bs"
    using ToLower_hexOfBytes [of bs] by (simp add: ToLower_def toLower_def)
  then have "TrimPrefix (ToLower (''0x'' @ hexOfBytes bs)) ''0x'' = hexOfBytes bs"
    by (simp add: TrimPrefix_def)
  then show ?thesis
    by (simp add: hexBitlist_def DecodeString_hexOfBytes foldl_appendByteBits)
qed

lemma length_bits: "length (concat (map (\<lambda>by :: u8. map (bit by) [0..<8]) bs)) = 8 * length bs"
  by (induction bs) simp_all

lemma reverseHexTable_digit:
  assumes "reverseHexTable c \<le> 15"
  shows "c \<in> set ''0123456789abcdefABCDEF''"
proof -
  define n where "n = (of_char c :: nat)"
  have "(48 \<le> n \<and> n \<le> 57) \<or> (97 \<le> n \<and> n \<le> 102) \<or> (65 \<le> n \<and> n \<le> 70)"
    using assms unfolding reverseHexTable_def Let_def n_def [symmetric]
    by (auto split: if_splits)
  then have "n \<in> {48, 49, 50, 51, 52, 53, 54, 55, 56, 57, 97, 98, 99, 100, 101, 102,
      65, 66, 67, 68, 69, 70}"
    by (simp only: insert_iff empty_iff) arith
  then have "of_char c \<in> (of_char ` set ''0123456789abcdefABCDEF'' :: nat set)"
    by (simp add: n_def)
  then obtain d where d: "d \<in> set ''0123456789abcdefABCDEF''" "(of_char c :: nat) = of_char d"
    by blast
  from d(2) have "c = d" by (simp only: of_char_eq_iff)
  with d(1) show ?thesis by simp
qed

lemma DecodeString_Inr:
  "DecodeString src = Inr dst \<Longrightarrow>
     (\<forall>c \<in> set src. reverseHexTable c \<le> 15) \<and> length src = 2 * length dst"
proof (induction src arbitrary: dst rule: DecodeString.induct)
  case 1
  then show ?case by simp
next
  case (2 p)
  then show ?case by (simp split: if_splits)
next
  case (3 p q src)
  then show ?case
    by (auto simp: Let_def not_less split: if_splits sum.splits)
qed

lemma DecodeString_malformed:
  assumes "(\<exists>c \<in> set src. c \<notin> set ''0123456789abcdefABCDEF'') \<or> odd (length src)"
  shows "\<exists>e. DecodeString src = Inl e"
proof (cases "DecodeString src")
  case (Inl e)
  then show ?thesis by blast
next
  case (Inr dst)
  from DecodeString_Inr [OF Inr]
  have ok: "\<forall>c \<in> set src. reverseHexTable c \<le> 15" and len: "length src = 2 * length dst"
    by blast+
  from ok have "\<forall>c \<in> set src. c \<in> set ''0123456789abcdefABCDEF''"
    using reverseHexTable_digit by blast
  moreover from len have "even (length src)" by simp
  ultimately show ?thesis using assms by blast
qed

text \<open>
  Claim C2 (bit-list decoding). The string \<open>0x\<close> followed by the hexadecimal digits of
  N bytes decodes to the 8N bits of those bytes, in byte order and least significant bit
  first within each byte; the same holds for every non-empty input whose digits
  \<open>hex.DecodeString\<close> accepts after lower-casing and removal of the prefix. \<open>0x03\<close>
  decodes to two set bits followed by six clear ones, and a zero byte to eight clear bits.
  The empty string, and every input whose digit part holds a character that is no
  hexadecimal digit or has odd length, decodes to the empty sequence; the function returns
  a sequence on every input.
\<close>

theorem hexBitlist_decode:
  "hexBitlist (''0x'' @ hexOfBytes bs) = concat (map (\<lambda>by. map (bit by) [0..<8]) bs)
   \<and> length (hexBitlist (''0x'' @ hexOfBytes bs)) = 8 * length bs
   \<and> (hexstr \<noteq> [] \<and> DecodeString (TrimPrefix (ToLower hexstr) ''0x'') = Inr b \<longrightarrow>
         hexBitlist hexstr = concat (map (\<lambda>by. map (bit by) [0..<8]) b)
         \<and> length (hexBitlist hexstr) = 8 * length b)
   \<and> hexBitlist ''0x03'' = [True, True, False, False, False, False, False, False]
   \<and> hexBitlist ''0x00'' = replicate 8 False
   \<and> hexBitlist [] = []
   \<and> ((\<exists>c \<in> set (TrimPrefix (ToLower hexstr) ''0x''). c \<notin> set ''0123456789abcdefABCDEF'')
        \<or> odd (length (TrimPrefix (ToLower hexstr) ''0x'')) \<longrightarrow> hexBitlist hexstr = [])"
proof -
  have rt: "hexBitlist (''0x'' @ hexOfBytes bs) = concat (map (\<lambda>by. map (bit by) [0..<8]) bs)"
    by (rule hexBitlist_roundtrip)
  have len: "length (hexBitlist (''0x'' @ hexOfBytes bs)) = 8 * length bs"
    by (simp only: rt length_bits)
  have gen: "hexstr \<noteq> [] \<and> DecodeString (TrimPrefix (ToLower hexstr) ''0x'') = Inr b \<longrightarrow>
         hexBitlist hexstr = concat (map (\<lambda>by. map (bit by) [0..<8]) b)
         \<and> length (hexBitlist hexstr) = 8 * length b"
  proof
    assume a: "hexstr \<noteq> [] \<and> DecodeString (TrimPrefix (ToLower hexstr) ''0x'') = Inr b"
    then have "hexBitlist hexstr = concat (map (\<lambda>by. map (bit by) [0..<8]) b)"
      by (simp add: hexBitlist_def foldl_appendByteBits)
    then show "hexBitlist hexstr = concat (map (\<lambda>by. map (bit by) [0..<8]) b)
         \<and> length (hexBitlist hexstr) = 8 * length b"
      by (simp only: length_bits)
  qed
  have ex3: "hexBitlist ''0x03'' = [True, True, False, False, False, False, False, False]"
    by code_simp
  have ex0: "hexBitlist ''0x00'' = replicate 8 False"
    by code_simp
  have emp: "hexBitlist [] = []"
    by (simp add: hexBitlist_def)
  have bad: "(\<exists>c \<in> set (TrimPrefix (ToLower hexstr) ''0x''). c \<notin> set ''0123456789abcdefABCDEF'')
        \<or> odd (length (TrimPrefix (ToLower hexstr) ''0x'')) \<longrightarrow> hexBitlist hexstr = []"
  proof
    assume "(\<exists>c \<in> set (TrimPrefix (ToLower hexstr) ''0x''). c \<notin> set ''0123456789abcdefABCDEF'')
        \<or> odd (length (TrimPrefix (ToLower hexstr) ''0x''))"
    then obtain e where "DecodeString (TrimPrefix (ToLower hexstr) ''0x'') = Inl e"
      using DecodeString_malformed by blast
    then show "hexBitlist hexstr = []"
      by (simp add: hexBitlist_def)
  qed
  from rt len gen ex3 ex0 emp bad show ?thesis by blast
qed

theorem hexBitlist_decode_witness:
  "hexBitlist (''0x'' @ hexOfBytes [3, 128])
     = [True, True, False, False, False, False, False, False,
        False, False, False, False, False, False, False, True]
   \<and> ''0X0aFf'' \<noteq> [] \<and> DecodeString (TrimPrefix (ToLower ''0X0aFf'') ''0x'') = Inr [10, 255]
   \<and> length (hexBitlist ''0X0aFf'') = 16
   \<and> (\<exists>c \<in> set (TrimPrefix (ToLower ''0x0g'') ''0x''). c \<notin> set ''0123456789abcdefABCDEF'')
   \<and> hexBitlist ''0x0g'' = []
   \<and> odd (length (TrimPrefix (ToLower ''0x0'') ''0x'')) \<and> hexBitlist ''0x0'' = []"
proof -
  have d: "DecodeString (TrimPrefix (ToLower ''0X0aFf'') ''0x'') = Inr [10, 255]"
    by code_simp
  have g: "\<exists>c \<in> set (TrimPrefix (ToLower ''0x0g'') ''0x''). c \<notin> set ''0123456789abcdefABCDEF''"
    by (simp add: TrimPrefix_def ToLower_def toLower_def)
  have o: "odd (length (TrimPrefix (ToLower ''0x0'') ''0x''))"
    by (simp add: TrimPrefix_def ToLower_def toLower_def)
  have b: "concat (map (\<lambda>by :: u8. map (bit by) [0..<8]) [3, 128])
     = [True, True, False, False, False, False, False, False,
        False, False, False, False, False, False, False, True]"
    by (simp add: upt_rec bit_numeral_rec)
  note t1 = hexBitlist_decode [of "[3, 128]" "''0X0aFf''" "[10, 255]"]
  note t2 = hexBitlist_decode [of "[]" "''0x0g''" "[]"]
  note t3 = hexBitlist_decode [of "[]" "''0x0''" "[]"]
  from t1 b have r1: "hexBitlist (''0x'' @ hexOfBytes [3, 128])
     = [True, True, False, False, False, False, False, False,
        False, False, False, False, False, False, False, True]"
    by simp
  from t1 d have r2: "length (hexBitlist ''0X0aFf'') = 16" by simp
  from t2 g have r3: "hexBitlist ''0x0g'' = []" by blast
  from t3 o have r4: "hexBitlist ''0x0'' = []" by blast
  from r1 d r2 g r3 o r4 show ?thesis by simp
qed

section \<open>Properties of the voter decoder\<close>

lemma foldl_enumerate_pick:
  "foldl (\<lambda>acc (i, b). if P i b then acc @ [f i] else acc) [] (enumerate 0 xs)
     = map f (filter (\<lambda>i. P i (xs ! i)) [0..<length xs])"
proof (induction xs rule: rev_induct)
  case Nil
  show ?case by simp
next
  case (snoc x xs)
  have filt: "filter (\<lambda>i. P i ((xs @ [x]) ! i)) [0..<length xs]
      = filter (\<lambda>i. P i (xs ! i)) [0..<length xs]"
    by (rule filter_cong) (simp_all add: nth_append)
  show ?case
    by (simp add: enumerate_append_eq snoc.IH filt)
qed

lemma includedCommittees_eq:
  "includedCommittees cbits = map of_nat (filter (\<lambda>i. cbits ! i) [0..<length cbits])"
  unfolding includedCommittees_def by (rule foldl_enumerate_pick)

lemma pickVoters_eq:
  "pickVoters aggBits cc
     = map (\<lambda>p. cc ! p) (filter (\<lambda>p. aggBits ! p \<and> p < length cc) [0..<length aggBits])"
  unfolding pickVoters_def by (rule foldl_enumerate_pick)

lemma concatCommittees_eq:
  "concatCommittees idxToValidators included = concat (map (committeeAt idxToValidators) included)"
proof -
  have "foldl (\<lambda>cc ci. cc @ committeeAt idxToValidators ci) acc included
      = acc @ concat (map (committeeAt idxToValidators) included)" for acc
    by (induction included arbitrary: acc) simp_all
  then show ?thesis by (simp add: concatCommittees_def)
qed

text \<open>
  Claim C3 (multi-committee voters). When \<open>committee_bits\<close> is a non-empty string, the
  voters are obtained as follows: the positions of the set committee bits in ascending
  order; the concatenation of the validator lists assigned to those committees, in that
  order (a committee without assignment contributes nothing); and, for each set
  aggregation bit at a position below the length of the concatenation, in ascending order
  of position, the validator at that position. Set aggregation bits at or beyond that
  length contribute nothing, and the function returns a list on every input. With
  committee bits \<open>0x01\<close>, aggregation bits \<open>0x03\<close> and assignment \<open>{0: [42, 17]}\<close> the
  voters are \<open>[42, 17]\<close>, and they are the same with aggregation bits \<open>0xff\<close>.
\<close>

theorem voters_multi_committee:
  "(att ''committee_bits'' = Some (JString cbitsStr) \<and> cbitsStr \<noteq> [] \<longrightarrow>
      validatorsForAttestation att idxToValidators =
        (let cbits = hexBitlist cbitsStr;
             included = filter (\<lambda>i. cbits ! i) [0..<length cbits];
             cc = concat (map (\<lambda>i. committeeAt idxToValidators (of_nat i)) included);
             aggBits = hexBitlist (fst (assertString (att ''aggregation_bits'')))
         in map (\<lambda>p. cc ! p) (filter (\<lambda>p. aggBits ! p \<and> p < length cc) [0..<length aggBits])))
   \<and> validatorsForAttestation
        [''committee_bits'' \<mapsto> JString ''0x01'', ''aggregation_bits'' \<mapsto> JString ''0x03'']
        [0 \<mapsto> [42, 17]] = [42, 17]
   \<and> validatorsForAttestation
        [''committee_bits'' \<mapsto> JString ''0x01'', ''aggregation_bits'' \<mapsto> JString ''0xff'']
        [0 \<mapsto> [42, 17]] = [42, 17]"
proof -
  have gen: "att ''committee_bits'' = Some (JString cbitsStr) \<and> cbitsStr \<noteq> [] \<longrightarrow>
      validatorsForAttestation att idxToValidators =
        (let cbits = hexBitlist cbitsStr;
             included = filter (\<lambda>i. cbits ! i) [0..<length cbits];
             cc = concat (map (\<lambda>i. committeeAt idxToValidators (of_nat i)) included);
             aggBits = hexBitlist (fst (assertString (att ''aggregation_bits'')))
         in map (\<lambda>p. cc ! p) (filter (\<lambda>p. aggBits ! p \<and> p < length cc) [0..<length aggBits]))"
    by (simp add: validatorsForAttestation_def Let_def includedCommittees_eq pickVoters_eq
        concatCommittees_eq comp_def)
  have ex: "validatorsForAttestation
        [''committee_bits'' \<mapsto> JString ''0x01'', ''aggregation_bits'' \<mapsto> JString ''0x03'']
        [0 \<mapsto> [42, 17]] = [42, 17]"
    by code_simp
  have oob: "validatorsForAttestation
        [''committee_bits'' \<mapsto> JString ''0x01'', ''aggregation_bits'' \<mapsto> JString ''0xff'']
        [0 \<mapsto> [42, 17]] = [42, 17]"
    by code_simp
  from gen ex oob show ?thesis by blast
qed

theorem voters_multi_committee_witness:
  "[''committee_bits'' \<mapsto> JString ''0x05'', ''aggregation_bits'' \<mapsto> JString ''0xfd'']
      ''committee_bits'' = Some (JString ''0x05'')
   \<and> ''0x05'' \<noteq> []
   \<and> validatorsForAttestation
        [''committee_bits'' \<mapsto> JString ''0x05'', ''aggregation_bits'' \<mapsto> JString ''0xfd'']
        [0 \<mapsto> [42, 17], 1 \<mapsto> [8], 2 \<mapsto> [5]] = [42, 5]"
proof -
  let ?att = "[''committee_bits'' \<mapsto> JString ''0x05'', ''aggregation_bits'' \<mapsto> JString ''0xfd'']"
  let ?idx = "[0 \<mapsto> [42, 17], 1 \<mapsto> [8], 2 \<mapsto> [5 :: u64]] :: committees"
  have h: "?att ''committee_bits'' = Some (JString ''0x05'') \<and> ''0x05'' \<noteq> []"
    by simp
  have v: "(let cbits = hexBitlist ''0x05'';
             included = filter (\<lambda>i. cbits ! i) [0..<length cbits];
             cc = concat (map (\<lambda>i. committeeAt ?idx (of_nat i)) included);
             aggBits = hexBitlist (fst (assertString (?att ''aggregation_bits'')))
         in map (\<lambda>p. cc ! p) (filter (\<lambda>p. aggBits ! p \<and> p < length cc) [0..<length aggBits]))
       = [42, 5]"
    by code_simp
  from voters_multi_committee [of ?att "''0x05''" ?idx] h
  have "validatorsForAttestation ?att ?idx =
        (let cbits = hexBitlist ''0x05'';
             included = filter (\<lambda>i. cbits ! i) [0..<length cbits];
             cc = concat (map (\<lambda>i. committeeAt ?idx (of_nat i)) included);
             aggBits = hexBitlist (fst (assertString (?att ''aggregation_bits'')))
         in map (\<lambda>p. cc ! p) (filter (\<lambda>p. aggBits ! p \<and> p < length cc) [0..<length aggBits]))"
    by blast
  with v have "validatorsForAttestation ?att ?idx = [42, 5]" by (simp only:)
  with h show ?thesis by blast
qed

text \<open>
  Claim C5 (no committee bitfield). When \<open>committee_bits\<close> is absent or the empty string
  (or no string at all), the decoder yields no voters, whatever the aggregation bits and
  the committee assignment are.
\<close>

theorem voters_single_committee:
  "(\<forall>s. att ''committee_bits'' = Some (JString s) \<longrightarrow> s = []) \<longrightarrow>
     validatorsForAttestation att idxToValidators = []"
proof
  assume a: "\<forall>s. att ''committee_bits'' = Some (JString s) \<longrightarrow> s = []"
  show "validatorsForAttestation att idxToValidators = []"
  proof (cases "assertString (att ''committee_bits'')")
    case (Pair s ok)
    with a have "\<not> (ok \<and> s \<noteq> [])"
      by (cases "(att ''committee_bits'')" rule: assertString.cases) auto
    then have "(if ok \<and> s \<noteq> [] then x else []) = ([] :: u64 list)" for x
      by auto
    with Pair show ?thesis by (simp only: validatorsForAttestation_def Let_def split)
  qed
qed

theorem voters_single_committee_witness:
  "[''aggregation_bits'' \<mapsto> JString ''0x03''] ''committee_bits'' = None
   \<and> validatorsForAttestation [''aggregation_bits'' \<mapsto> JString ''0x03''] [0 \<mapsto> [42, 17]] = []
   \<and> [''committee_bits'' \<mapsto> JString [], ''aggregation_bits'' \<mapsto> JString ''0x03'']
        ''committee_bits'' = Some (JString [])
   \<and> validatorsForAttestation
        [''committee_bits'' \<mapsto> JString [], ''aggregation_bits'' \<mapsto> JString ''0x03'']
        [0 \<mapsto> [42, 17]] = []"
proof -
  let ?a1 = "[''aggregation_bits'' \<mapsto> JString ''0x03'']"
  let ?a2 = "[''committee_bits'' \<mapsto> JString [], ''aggregation_bits'' \<mapsto> JString ''0x03'']"
  have n1: "?a1 ''committee_bits'' = None" by simp
  have n2: "?a2 ''committee_bits'' = Some (JString [])" by simp
  from n1 have h1: "\<forall>s. ?a1 ''committee_bits'' = Some (JString s) \<longrightarrow> s = []" by simp
  from n2 have h2: "\<forall>s. ?a2 ''committee_bits'' = Some (JString s) \<longrightarrow> s = []" by simp
  from voters_single_committee [of ?a1 "[0 \<mapsto> [42, 17]]"] h1
  have r1: "validatorsForAttestation ?a1 [0 \<mapsto> [42, 17]] = []" by blast
  from voters_single_committee [of ?a2 "[0 \<mapsto> [42, 17]]"] h2
  have r2: "validatorsForAttestation ?a2 [0 \<mapsto> [42, 17]] = []" by blast
  from n1 r1 n2 r2 show ?thesis by blast
qed

section \<open>Properties of the block fetcher and the committee resolver\<close>

lemma pickVoters_Nil: "pickVoters aggBits [] = []"
  by (simp add: pickVoters_eq)

lemma committeeAt_empty: "committeeAt Map.empty ci = []"
  by (simp add: committeeAt_def)

lemma concatCommittees_empty: "concatCommittees Map.empty included = []"
  unfolding concatCommittees_eq by (induction included) (simp_all add: committeeAt_empty)

lemma validatorsForAttestation_empty: "validatorsForAttestation att Map.empty = []"
  by (simp add: validatorsForAttestation_def Let_def concatCommittees_empty
      pickVoters_Nil split: prod.splits)

lemma requestCount_simps [simp]:
  "requestCount [] = 0"
  "requestCount (Request url # tr) = Suc (requestCount tr)"
  "requestCount (Backoff ms # tr) = requestCount tr"
  "requestCount (tr @ tr') = requestCount tr + requestCount tr'"
  by (simp_all add: requestCount_def)

lemma backoffCount_simps [simp]:
  "backoffCount [] = 0"
  "backoffCount (Request url # tr) = backoffCount tr"
  "backoffCount (Backoff ms # tr) = Suc (backoffCount tr)"
  "backoffCount (tr @ tr') = backoffCount tr + backoffCount tr'"
  by (simp_all add: backoffCount_def)

lemma fetchBlock_3:
  "fetchBlock e url (Suc (Suc (Suc 0))) tr =
     (if \<not> newRequest e url then (None, tr)
      else (responseOK (roundTrip e (requestCount tr) url), tr @ [Request url]))"
  by (subst fetchBlock.simps)
    (simp add: maxAttempts_def eval_nat_numeral clientDo_def split: option.splits)

lemma fetchBlock_2:
  "fetchBlock e url (Suc (Suc 0)) tr =
     (if \<not> newRequest e url then (None, tr)
      else (case responseOK (roundTrip e (requestCount tr) url) of
              Some body \<Rightarrow> (Some body, tr @ [Request url])
            | None \<Rightarrow>
                if ctxDoneFirst e (backoffCount tr) then (None, tr @ [Request url, Backoff 200])
                else (responseOK (roundTrip e (Suc (requestCount tr)) url),
                      tr @ [Request url, Backoff 200, Request url])))"
  by (subst fetchBlock.simps)
    (simp add: maxAttempts_def eval_nat_numeral clientDo_def selectBackoff_def fetchBlock_3
      split: option.splits)


lemma fetchBlock_1:
  "fetchBlock e url (Suc 0) tr =
     (if \<not> newRequest e url then (None, tr)
      else (case responseOK (roundTrip e (requestCount tr) url) of
              Some body \<Rightarrow> (Some body, tr @ [Request url])
            | None \<Rightarrow>
                if ctxDoneFirst e (backoffCount tr) then (None, tr @ [Request url, Backoff 100])
                else (case responseOK (roundTrip e (Suc (requestCount tr)) url) of
                        Some body \<Rightarrow> (Some body, tr @ [Request url, Backoff 100, Request url])
                      | None \<Rightarrow>
                          if ctxDoneFirst e (Suc (backoffCount tr))
                          then (None, tr @ [Request url, Backoff 100, Request url, Backoff 200])
                          else (responseOK (roundTrip e (Suc (Suc (requestCount tr))) url),
                                tr @ [Request url, Backoff 100, Request url, Backoff 200,
                                      Request url]))))"
  by (subst fetchBlock.simps)
    (simp add: maxAttempts_def eval_nat_numeral clientDo_def selectBackoff_def fetchBlock_2
      split: option.splits)

lemma processSlot_no_block:
  "fst (fetchBlock e (blockURL api slot) 1 tr) = None \<Longrightarrow>
     processSlot e api c slot tr = (0, c, snd (fetchBlock e (blockURL api slot) 1 tr))"
  by (cases "fetchBlock e (blockURL api slot) 1 tr") (simp add: processSlot_def)

text \<open>
  Claim C7 (block fetch retries). The retry loop extends the trace by an initial part of
  request, back-off of 100 ms, request, back-off of 200 ms, request: at most three
  requests. Every run of the loop is one of these: the request cannot be built (no block,
  nothing sent); attempt 1 succeeds; attempt 1 fails and the context is done before the
  timer of 100 ms fires (no block, no further request); the timer fires first and attempt
  2 is made and succeeds; attempt 2 fails and the context is done before the timer of
  200 ms fires (no block, no further request); the timer fires first and attempt 3 is
  made, whose outcome is the result, with no timer after it. So after failed attempt
  \<open>a < 3\<close> the loop waits \<open>a * 100\<close> ms and then retries unless the context is done
  first, and when all three attempts fail there is no block after exactly three requests.
  Without a block \<open>processSlot\<close> returns 0 and leaves the cache as it was; it has no
  error result, and the slot loop of a scan goes on with the next slot, the slot counted
  and the update count unchanged.
\<close>

theorem block_fetch_retry:
  "(\<exists>m. m \<le> 5 \<and> snd (fetchBlock e url 1 tr)
        = tr @ take m [Request url, Backoff 100, Request url, Backoff 200, Request url])
   \<and> requestCount (snd (fetchBlock e url 1 tr)) \<le> requestCount tr + 3
   \<and> (\<not> newRequest e url \<longrightarrow> fetchBlock e url 1 tr = (None, tr))
   \<and> (newRequest e url \<and> responseOK (roundTrip e (requestCount tr) url) = Some body
       \<longrightarrow> fetchBlock e url 1 tr = (Some body, tr @ [Request url]))
   \<and> (newRequest e url \<and> responseOK (roundTrip e (requestCount tr) url) = None
        \<and> ctxDoneFirst e (backoffCount tr)
       \<longrightarrow> fetchBlock e url 1 tr = (None, tr @ [Request url, Backoff 100]))
   \<and> (newRequest e url \<and> responseOK (roundTrip e (requestCount tr) url) = None
        \<and> \<not> ctxDoneFirst e (backoffCount tr)
        \<and> responseOK (roundTrip e (requestCount tr + 1) url) = Some body
       \<longrightarrow> fetchBlock e url 1 tr
             = (Some body, tr @ [Request url, Backoff 100, Request url]))
   \<and> (newRequest e url \<and> responseOK (roundTrip e (requestCount tr) url) = None
        \<and> \<not> ctxDoneFirst e (backoffCount tr)
        \<and> responseOK (roundTrip e (requestCount tr + 1) url) = None
        \<and> ctxDoneFirst e (backoffCount tr + 1)
       \<longrightarrow> fetchBlock e url 1 tr
             = (None, tr @ [Request url, Backoff 100, Request url, Backoff 200]))
   \<and> (newRequest e url \<and> responseOK (roundTrip e (requestCount tr) url) = None
        \<and> \<not> ctxDoneFirst e (backoffCount tr)
        \<and> responseOK (roundTrip e (requestCount tr + 1) url) = None
        \<and> \<not> ctxDoneFirst e (backoffCount tr + 1)
       \<longrightarrow> fetchBlock e url 1 tr
             = (responseOK (roundTrip e (requestCount tr + 2) url),
                tr @ [Request url, Backoff 100, Request url, Backoff 200, Request url]))
   \<and> (newRequest e url \<and> responseOK (roundTrip e (requestCount tr) url) = None
        \<and> \<not> ctxDoneFirst e (backoffCount tr)
        \<and> responseOK (roundTrip e (requestCount tr + 1) url) = None
        \<and> \<not> ctxDoneFirst e (backoffCount tr + 1)
        \<and> responseOK (roundTrip e (requestCount tr + 2) url) = None
       \<longrightarrow> fetchBlock e url 1 tr
             = (None, tr @ [Request url, Backoff 100, Request url, Backoff 200, Request url]))
   \<and> (responseOK (roundTrip e (requestCount tr) url) = None
        \<and> responseOK (roundTrip e (requestCount tr + 1) url) = None
        \<and> responseOK (roundTrip e (requestCount tr + 2) url) = None
       \<longrightarrow> fst (fetchBlock e url 1 tr) = None)
   \<and> (fst (fetchBlock e (blockURL api slot) 1 tr) = None
       \<longrightarrow> processSlot e api c slot tr = (0, c, snd (fetchBlock e (blockURL api slot) 1 tr))
           \<and> (slot \<le> headSlot \<longrightarrow>
                slotsLoop e api (Suc k) slot headSlot (slots, upd, c, tr, visited)
                  = slotsLoop e api k (slot + 1) headSlot
                      (slots + 1, upd, c, snd (fetchBlock e (blockURL api slot) 1 tr),
                       visited @ [slot])))"
proof -
  let ?p = "[Request url, Backoff 100, Request url, Backoff 200, Request url]"
  let ?n = "requestCount tr" and ?b = "backoffCount tr"
  have shape: "\<exists>m. m \<le> 5 \<and> snd (fetchBlock e url 1 tr) = tr @ take m ?p"
  proof -
    have "snd (fetchBlock e url 1 tr) \<in> {tr @ take 0 ?p, tr @ take 1 ?p, tr @ take 2 ?p,
        tr @ take 3 ?p, tr @ take 4 ?p, tr @ take 5 ?p}"
      by (simp add: fetchBlock_1 split: option.splits)
    moreover have "(0::nat) \<le> 5" "(1::nat) \<le> 5" "(2::nat) \<le> 5" "(3::nat) \<le> 5"
      "(4::nat) \<le> 5" "(5::nat) \<le> 5"
      by simp_all
    ultimately show ?thesis by (elim insertE emptyE) blast+
  qed
  have cnt: "requestCount (snd (fetchBlock e url 1 tr)) \<le> ?n + 3"
    by (simp add: fetchBlock_1 split: option.splits)
  have nobuild: "\<not> newRequest e url \<longrightarrow> fetchBlock e url 1 tr = (None, tr)"
    by (simp add: fetchBlock_1)
  have ok1: "newRequest e url \<and> responseOK (roundTrip e ?n url) = Some body
       \<longrightarrow> fetchBlock e url 1 tr = (Some body, tr @ [Request url])"
    by (simp add: fetchBlock_1)
  have d1: "newRequest e url \<and> responseOK (roundTrip e ?n url) = None \<and> ctxDoneFirst e ?b
       \<longrightarrow> fetchBlock e url 1 tr = (None, tr @ [Request url, Backoff 100])"
    by (simp add: fetchBlock_1)
  have ok2: "newRequest e url \<and> responseOK (roundTrip e ?n url) = None
        \<and> \<not> ctxDoneFirst e ?b \<and> responseOK (roundTrip e (?n + 1) url) = Some body
       \<longrightarrow> fetchBlock e url 1 tr
             = (Some body, tr @ [Request url, Backoff 100, Request url])"
    by (simp add: fetchBlock_1)
  have d2: "newRequest e url \<and> responseOK (roundTrip e ?n url) = None
        \<and> \<not> ctxDoneFirst e ?b \<and> responseOK (roundTrip e (?n + 1) url) = None
        \<and> ctxDoneFirst e (?b + 1)
       \<longrightarrow> fetchBlock e url 1 tr
             = (None, tr @ [Request url, Backoff 100, Request url, Backoff 200])"
    by (simp add: fetchBlock_1)
  have third: "newRequest e url \<and> responseOK (roundTrip e ?n url) = None
        \<and> \<not> ctxDoneFirst e ?b \<and> responseOK (roundTrip e (?n + 1) url) = None
        \<and> \<not> ctxDoneFirst e (?b + 1)
       \<longrightarrow> fetchBlock e url 1 tr = (responseOK (roundTrip e (?n + 2) url), tr @ ?p)"
    by (simp add: fetchBlock_1 numeral_2_eq_2)
  have exhausted: "newRequest e url \<and> responseOK (roundTrip e ?n url) = None
        \<and> \<not> ctxDoneFirst e ?b \<and> responseOK (roundTrip e (?n + 1) url) = None
        \<and> \<not> ctxDoneFirst e (?b + 1) \<and> responseOK (roundTrip e (?n + 2) url) = None
       \<longrightarrow> fetchBlock e url 1 tr = (None, tr @ ?p)"
    by (simp add: fetchBlock_1 numeral_2_eq_2)
  have all3: "responseOK (roundTrip e ?n url) = None
        \<and> responseOK (roundTrip e (?n + 1) url) = None
        \<and> responseOK (roundTrip e (?n + 2) url) = None
       \<longrightarrow> fst (fetchBlock e url 1 tr) = None"
    by (simp add: fetchBlock_1 numeral_2_eq_2)
  have zero: "fst (fetchBlock e (blockURL api slot) 1 tr) = None
       \<longrightarrow> processSlot e api c slot tr = (0, c, snd (fetchBlock e (blockURL api slot) 1 tr))
           \<and> (slot \<le> headSlot \<longrightarrow>
                slotsLoop e api (Suc k) slot headSlot (slots, upd, c, tr, visited)
                  = slotsLoop e api k (slot + 1) headSlot
                      (slots + 1, upd, c, snd (fetchBlock e (blockURL api slot) 1 tr),
                       visited @ [slot]))"
    by (simp add: processSlot_no_block)
  show ?thesis
    by (intro conjI) (fact shape cnt nobuild ok1 d1 ok2 d2 third exhausted all3 zero)+
qed

theorem block_fetch_retry_witness:
  "newRequest deadNodeExpired (blockURL ''http://node'' 7)
   \<and> responseOK (roundTrip deadNodeExpired (requestCount []) (blockURL ''http://node'' 7)) = None
   \<and> ctxDoneFirst deadNodeExpired (backoffCount [])
   \<and> fetchBlock deadNodeExpired (blockURL ''http://node'' 7) 1 []
       = (None, [Request ''http://node/eth/v2/beacon/blocks/7'', Backoff 100])
   \<and> newRequest deadNode (blockURL ''http://node'' 7)
   \<and> responseOK (roundTrip deadNode (requestCount []) (blockURL ''http://node'' 7)) = None
   \<and> \<not> ctxDoneFirst deadNode (backoffCount [])
   \<and> responseOK (roundTrip deadNode (requestCount [] + 1) (blockURL ''http://node'' 7)) = None
   \<and> \<not> ctxDoneFirst deadNode (backoffCount [] + 1)
   \<and> responseOK (roundTrip deadNode (requestCount [] + 2) (blockURL ''http://node'' 7)) = None
   \<and> fetchBlock deadNode (blockURL ''http://node'' 7) 1 []
       = (None, [Request ''http://node/eth/v2/beacon/blocks/7'', Backoff 100,
                 Request ''http://node/eth/v2/beacon/blocks/7'', Backoff 200,
                 Request ''http://node/eth/v2/beacon/blocks/7''])
   \<and> processSlot deadNode ''http://node'' [5 \<mapsto> 3] 7 []
       = (0, [5 \<mapsto> 3],
          [Request ''http://node/eth/v2/beacon/blocks/7'', Backoff 100,
           Request ''http://node/eth/v2/beacon/blocks/7'', Backoff 200,
           Request ''http://node/eth/v2/beacon/blocks/7''])
   \<and> 7 \<le> (9 :: u64)
   \<and> slotsLoop deadNode ''http://node'' (Suc 0) 7 9 (0, 0, [5 \<mapsto> 3], [], [])
       = slotsLoop deadNode ''http://node'' 0 (7 + 1) 9
           (0 + 1, 0, [5 \<mapsto> 3],
            [Request ''http://node/eth/v2/beacon/blocks/7'', Backoff 100,
             Request ''http://node/eth/v2/beacon/blocks/7'', Backoff 200,
             Request ''http://node/eth/v2/beacon/blocks/7''], [] @ [7])"
proof -
  let ?url = "blockURL ''http://node'' 7"
  let ?u = "''http://node/eth/v2/beacon/blocks/7''"
  have url: "?url = ?u" by code_simp
  have x: "newRequest deadNodeExpired ?url
      \<and> responseOK (roundTrip deadNodeExpired (requestCount []) ?url) = None
      \<and> ctxDoneFirst deadNodeExpired (backoffCount [])"
    by (simp add: deadNodeExpired_def deadNode_def)
  have d: "newRequest deadNode ?url
      \<and> responseOK (roundTrip deadNode (requestCount []) ?url) = None
      \<and> \<not> ctxDoneFirst deadNode (backoffCount [])
      \<and> responseOK (roundTrip deadNode (requestCount [] + 1) ?url) = None
      \<and> \<not> ctxDoneFirst deadNode (backoffCount [] + 1)
      \<and> responseOK (roundTrip deadNode (requestCount [] + 2) ?url) = None"
    by (simp add: deadNode_def)
  note t1 = block_fetch_retry [where e = deadNodeExpired and url = ?url and tr = "[]"
      and api = "''http://node''" and slot = 7 and c = "[5 \<mapsto> 3]" and headSlot = 9
      and k = 0 and slots = 0 and upd = 0 and visited = "[]"]
  note t2 = block_fetch_retry [where e = deadNode and url = ?url and tr = "[]"
      and api = "''http://node''" and slot = 7 and c = "[5 \<mapsto> 3]" and headSlot = 9
      and k = 0 and slots = 0 and upd = 0 and visited = "[]"]
  note e1 = t1 [THEN conjunct2, THEN conjunct2, THEN conjunct2, THEN conjunct2, THEN conjunct1, THEN mp, OF x]
  note e2 = t2 [THEN conjunct2, THEN conjunct2, THEN conjunct2, THEN conjunct2, THEN conjunct2, THEN conjunct2, THEN conjunct2, THEN conjunct2, THEN conjunct1, THEN mp, OF d]
  from e1 have r1: "fetchBlock deadNodeExpired ?url 1 [] = (None, [Request ?u, Backoff 100])"
    by (simp only: url append_Nil)
  from e2 have r2: "fetchBlock deadNode ?url 1 []
      = (None, [Request ?u, Backoff 100, Request ?u, Backoff 200, Request ?u])"
    by (simp only: url append_Nil)
  then have f: "fst (fetchBlock deadNode ?url 1 []) = None"
    and s: "snd (fetchBlock deadNode ?url 1 [])
      = [Request ?u, Backoff 100, Request ?u, Backoff 200, Request ?u]"
    by (simp_all only: fst_conv snd_conv)
  note z = t2 [THEN conjunct2, THEN conjunct2, THEN conjunct2, THEN conjunct2, THEN conjunct2, THEN conjunct2, THEN conjunct2, THEN conjunct2, THEN conjunct2, THEN conjunct2, THEN mp, OF f]
  from z [THEN conjunct1]
  have r3: "processSlot deadNode ''http://node'' [5 \<mapsto> 3] 7 []
      = (0, [5 \<mapsto> 3], [Request ?u, Backoff 100, Request ?u, Backoff 200, Request ?u])"
    by (simp only: s)
  have le: "7 \<le> (9 :: u64)" by simp
  from z [THEN conjunct2, THEN mp, OF le]
  have r4: "slotsLoop deadNode ''http://node'' (Suc 0) 7 9 (0, 0, [5 \<mapsto> 3], [], [])
       = slotsLoop deadNode ''http://node'' 0 (7 + 1) 9
           (0 + 1, 0, [5 \<mapsto> 3],
            [Request ?u, Backoff 100, Request ?u, Backoff 200, Request ?u], [] @ [7])"
    by (simp only: s)
  show ?thesis
    by (intro conjI) (fact x [THEN conjunct1] x [THEN conjunct2, THEN conjunct1]
      x [THEN conjunct2, THEN conjunct2] r1 d [THEN conjunct1]
      d [THEN conjunct2, THEN conjunct1] d [THEN conjunct2, THEN conjunct2, THEN conjunct1]
      d [THEN conjunct2, THEN conjunct2, THEN conjunct2, THEN conjunct1]
      d [THEN conjunct2, THEN conjunct2, THEN conjunct2, THEN conjunct2, THEN conjunct1]
      d [THEN conjunct2, THEN conjunct2, THEN conjunct2, THEN conjunct2, THEN conjunct2]
      r2 r3 le r4)+
qed

text \<open>
  Claim C9 (committee resolution). \<open>fetchCommitteesForSlot\<close> sends at most one request
  (exactly one when the request can be built) and starts no back-off timer. When the
  request cannot be built, the transport fails, the status is not 200 or the body does
  not decode, it returns the empty assignment; it has no error result. Against that
  assignment \<open>validatorsForAttestation\<close> yields no voters for any attestation.
\<close>

theorem committees_single_request:
  "(snd (fetchCommitteesForSlot e api slot tr) = tr
      \<or> snd (fetchCommitteesForSlot e api slot tr) = tr @ [Request (committeesURL api slot)])
   \<and> (newRequest e (committeesURL api slot)
        \<longrightarrow> snd (fetchCommitteesForSlot e api slot tr) = tr @ [Request (committeesURL api slot)])
   \<and> (\<not> newRequest e (committeesURL api slot)
        \<or> roundTrip e (requestCount tr) (committeesURL api slot) = DoError
        \<or> (\<exists>status body. roundTrip e (requestCount tr) (committeesURL api slot)
               = DoResponse status body \<and> (status \<noteq> 200 \<or> decodeCommittees e body = None))
       \<longrightarrow> fst (fetchCommitteesForSlot e api slot tr) = Map.empty
           \<and> validatorsForAttestation att (fst (fetchCommitteesForSlot e api slot tr)) = [])"
proof -
  let ?url = "committeesURL api slot"
  have one: "snd (fetchCommitteesForSlot e api slot tr) = tr
      \<or> snd (fetchCommitteesForSlot e api slot tr) = tr @ [Request ?url]"
    by (simp add: fetchCommitteesForSlot_def Let_def clientDo_def
        split: do_result.splits option.splits)
  have sent: "newRequest e ?url
        \<longrightarrow> snd (fetchCommitteesForSlot e api slot tr) = tr @ [Request ?url]"
    by (simp add: fetchCommitteesForSlot_def Let_def clientDo_def
        split: do_result.splits option.splits)
  have fail: "\<not> newRequest e ?url
        \<or> roundTrip e (requestCount tr) ?url = DoError
        \<or> (\<exists>status body. roundTrip e (requestCount tr) ?url
               = DoResponse status body \<and> (status \<noteq> 200 \<or> decodeCommittees e body = None))
       \<longrightarrow> fst (fetchCommitteesForSlot e api slot tr) = Map.empty
           \<and> validatorsForAttestation att (fst (fetchCommitteesForSlot e api slot tr)) = []"
  proof
    assume "\<not> newRequest e ?url
        \<or> roundTrip e (requestCount tr) ?url = DoError
        \<or> (\<exists>status body. roundTrip e (requestCount tr) ?url
               = DoResponse status body \<and> (status \<noteq> 200 \<or> decodeCommittees e body = None))"
    then have "fst (fetchCommitteesForSlot e api slot tr) = Map.empty"
      by (auto simp: fetchCommitteesForSlot_def Let_def clientDo_def
          split: do_result.splits option.splits)
    then show "fst (fetchCommitteesForSlot e api slot tr) = Map.empty
           \<and> validatorsForAttestation att (fst (fetchCommitteesForSlot e api slot tr)) = []"
      by (simp add: validatorsForAttestation_empty)
  qed
  from one sent fail show ?thesis by blast
qed

theorem committees_single_request_witness:
  "newRequest deadNode (committeesURL ''http://node/'' 7)
   \<and> roundTrip deadNode (requestCount []) (committeesURL ''http://node/'' 7) = DoResponse 503 []
   \<and> snd (fetchCommitteesForSlot deadNode ''http://node/'' 7 [])
       = [Request ''http://node/eth/v1/beacon/states/7/committees?slot=7'']
   \<and> fst (fetchCommitteesForSlot deadNode ''http://node/'' 7 []) = Map.empty
   \<and> validatorsForAttestation
        [''committee_bits'' \<mapsto> JString ''0x01'', ''aggregation_bits'' \<mapsto> JString ''0x03'']
        (fst (fetchCommitteesForSlot deadNode ''http://node/'' 7 [])) = []"
proof -
  let ?url = "committeesURL ''http://node/'' 7"
  let ?att = "[''committee_bits'' \<mapsto> JString ''0x01'', ''aggregation_bits'' \<mapsto> JString ''0x03'']"
  have url: "?url = ''http://node/eth/v1/beacon/states/7/committees?slot=7''" by code_simp
  have n: "newRequest deadNode ?url" by (simp add: deadNode_def)
  have r: "roundTrip deadNode (requestCount []) ?url = DoResponse 503 []"
    by (simp add: deadNode_def)
  then have h: "\<exists>status body. roundTrip deadNode (requestCount []) ?url = DoResponse status body
      \<and> (status \<noteq> 200 \<or> decodeCommittees deadNode body = None)"
    by simp
  note t = committees_single_request [of deadNode "''http://node/''" 7 "[]" ?att]
  from t n have "snd (fetchCommitteesForSlot deadNode ''http://node/'' 7 []) = [] @ [Request ?url]"
    by blast
  then have s: "snd (fetchCommitteesForSlot deadNode ''http://node/'' 7 [])
      = [Request ''http://node/eth/v1/beacon/states/7/committees?slot=7'']"
    by (simp only: url append_Nil)
  from t h have f: "fst (fetchCommitteesForSlot deadNode ''http://node/'' 7 []) = Map.empty
      \<and> validatorsForAttestation ?att (fst (fetchCommitteesForSlot deadNode ''http://node/'' 7 [])) = []"
    by blast
  from n r s f show ?thesis by blast
qed

section \<open>Properties of the continuous scanner\<close>










lemma late_headURL: "headURL ''http://node'' = ''http://node/eth/v2/beacon/blocks/head''"
  by (simp add: headURL_def TrimRightSlash_def)
lemma ParseUint_100: "ParseUint ''100'' = Some 100"
  by (simp add: ParseUint_def isDigit_def)


















section \<open>Properties of the backfill scan\<close>

subsection \<open>The enumeration\<close>

lemma produceAll_step:
  "produceAll endEpoch epoch slot =
     slot # (case afterSelect endEpoch epoch slot False of
               PCheck epoch' slot' aborted \<Rightarrow> produceAll endEpoch epoch' slot'
             | _ \<Rightarrow> [])"
  by (rule produceAll.simps)

lemma produceAll_not_Nil: "produceAll endEpoch epoch slot \<noteq> []"
  by (subst produceAll.simps) simp

lemma word_of_nat_neq_0: "0 < n \<Longrightarrow> n < 32 \<Longrightarrow> (of_nat n :: u64) \<noteq> 0"
proof
  assume n: "0 < n" "n < 32" and z: "(of_nat n :: u64) = 0"
  from z have "2 ^ 64 dvd n" by (simp add: word_of_nat_eq_0_iff)
  then have "(2 :: nat) ^ 64 \<le> n" using n(1) by (rule dvd_imp_le)
  with n(2) show False by simp
qed

lemma produceAll_inner:
  "j < 32 \<Longrightarrow>
     produceAll endEpoch epoch (epoch * 32 + of_nat j)
       = map (\<lambda>i. epoch * 32 + of_nat j - of_nat i) [0..<Suc j] @ nextEpochs endEpoch epoch"
proof (induction j)
  case 0
  show ?case
    by (subst produceAll.simps)
      (simp add: afterSelect_def slotsPerEpoch_def nextEpochs_def Let_def)
next
  case (Suc j)
  have ne: "epoch * 32 + of_nat (Suc j) \<noteq> epoch * 32"
    using word_of_nat_neq_0 [of "Suc j"] Suc.prems by simp
  have as: "afterSelect endEpoch epoch (epoch * 32 + of_nat (Suc j)) False
      = PCheck epoch (epoch * 32 + of_nat j) False"
    using ne by (simp add: afterSelect_def slotsPerEpoch_def Let_def)
  have m: "map (\<lambda>i. epoch * 32 + of_nat (Suc j) - of_nat i) [0..<Suc (Suc j)]
      = (epoch * 32 + of_nat (Suc j)) # map (\<lambda>i. epoch * 32 + of_nat j - of_nat i) [0..<Suc j]"
    by (subst upt_rec) (simp add: map_Suc_upt [symmetric] del: upt_Suc)
  show ?case
    using Suc by (subst produceAll.simps) (simp only: as producer.case m append_Cons Suc_lessD)
qed

lemma produceAll_epoch:
  "produceAll endEpoch epoch (epoch * 32 + 31) = epochSlots epoch @ nextEpochs endEpoch epoch"
  using produceAll_inner [of 31 endEpoch epoch] by (simp add: epochSlots_def)

lemma word_lt_2: "(E :: u64) < 2 \<Longrightarrow> E = 0 \<or> E = 1"
proof -
  assume "E < 2"
  then have "unat E < 2" by (simp add: word_less_nat_alt)
  then have "unat E = 0 \<or> unat E = 1" by arith
  then have "unat E = unat (0 :: u64) \<or> unat E = unat (1 :: u64)" by simp
  then show ?thesis by (simp only: word_unat_eq_iff [symmetric])
qed

lemma epochWindow_ge2:
  assumes "2 \<le> (E :: u64)"
  shows "epochWindow E = [E, E - 1, E - 2]"
proof -
  from assms have "2 \<le> unat E" by (simp add: word_le_nat_alt)
  then have "min 2 (unat E) = 2" by simp
  then show ?thesis by (simp add: epochWindow_def upt_rec)
qed

lemma epochWindow_1: "epochWindow 1 = [1, 0]"
  by (simp add: epochWindow_def upt_rec)

lemma epochWindow_0: "epochWindow 0 = [0]"
  by (simp add: epochWindow_def)

lemma produceAll_window_ge2:
  assumes "2 \<le> (E :: u64)"
  shows "produceAll (E - 2) E (E * 32 + 31) = windowSlots E"
proof -
  from assms have "2 \<le> unat E" by (simp add: word_le_nat_alt)
  then have E0: "E \<noteq> 0" and E1: "E \<noteq> 1" by auto
  have a: "nextEpochs (E - 2) E = produceAll (E - 2) (E - 1) ((E - 1) * 32 + 31)"
    using E0 by (simp add: nextEpochs_def)
  have "E - 1 \<noteq> E - 2" by simp
  moreover have "E - 1 \<noteq> 0" using E1 by simp
  ultimately have b: "nextEpochs (E - 2) (E - 1) = produceAll (E - 2) (E - 2) ((E - 2) * 32 + 31)"
    by (simp add: nextEpochs_def)
  have c: "nextEpochs (E - 2) (E - 2) = []" by (simp add: nextEpochs_def)
  have "produceAll (E - 2) E (E * 32 + 31) = epochSlots E @ nextEpochs (E - 2) E"
    by (rule produceAll_epoch)
  also have "\<dots> = epochSlots E @ epochSlots (E - 1) @ nextEpochs (E - 2) (E - 1)"
    by (simp only: a produceAll_epoch)
  also have "\<dots> = epochSlots E @ epochSlots (E - 1) @ epochSlots (E - 2) @ []"
    by (simp only: b produceAll_epoch c)
  also have "\<dots> = windowSlots E"
    by (simp add: windowSlots_def epochWindow_ge2 [OF assms])
  finally show ?thesis .
qed

lemma produceAll_window_lt2:
  assumes "(E :: u64) < 2"
  shows "produceAll 0 E (E * 32 + 31) = windowSlots E"
proof -
  from word_lt_2 [OF assms] show ?thesis
  proof
    assume "E = 0"
    then show ?thesis
      using produceAll_epoch [of 0 0]
      by (simp add: nextEpochs_def windowSlots_def epochWindow_0)
  next
    assume E: "E = 1"
    have n: "nextEpochs 0 1 = produceAll 0 0 (0 * 32 + 31)" by (simp add: nextEpochs_def)
    have "produceAll 0 1 (1 * 32 + 31) = epochSlots 1 @ nextEpochs 0 1"
      by (rule produceAll_epoch)
    also have "\<dots> = epochSlots 1 @ epochSlots 0 @ nextEpochs 0 0"
      by (simp only: n produceAll_epoch)
    also have "\<dots> = windowSlots 1"
      by (simp add: nextEpochs_def windowSlots_def epochWindow_1)
    finally show ?thesis by (simp only: E)
  qed
qed

lemma produceAll_window:
  "produceAll (snd (backfillRange headSlot)) (fst (backfillRange headSlot))
      (fst (backfillRange headSlot) * 32 + 31) = windowSlots (headSlot div 32)"
  using produceAll_window_ge2 [of "headSlot div 32"] produceAll_window_lt2 [of "headSlot div 32"]
  by (auto simp: backfillRange_def slotsPerEpoch_def Let_def not_le)

lemma length_epochSlots: "length (epochSlots e) = 32"
  by (simp add: epochSlots_def)

lemma length_windowSlots: "2 \<le> E \<Longrightarrow> length (windowSlots E) = 96"
  by (simp add: windowSlots_def epochWindow_ge2 length_epochSlots)

lemma unat_epoch_slot:
  assumes "unat e * 32 + 31 < 2 ^ 64" and "i < 32"
  shows "unat (e * 32 + 31 - of_nat i :: u64) = 32 * unat e + 31 - i"
proof -
  have "(of_nat (32 * unat e + 31 - i) :: u64) = of_nat (32 * unat e + 31) - of_nat i"
    using assms(2) by (intro of_nat_diff) simp
  also have "\<dots> = e * 32 + 31 - of_nat i" by simp
  finally have "e * 32 + 31 - of_nat i = (of_nat (32 * unat e + 31 - i) :: u64)" by simp
  moreover have "32 * unat e + 31 - i < 2 ^ 64" using assms by simp
  ultimately show ?thesis by (simp only: unat_of_nat) simp
qed

lemma unat_epochSlots:
  assumes "unat e * 32 + 31 < 2 ^ 64"
  shows "map unat (epochSlots e) = rev [32 * unat e ..< 32 * unat e + 32]"
proof (rule nth_equalityI)
  show "length (map unat (epochSlots e)) = length (rev [32 * unat e ..< 32 * unat e + 32])"
    by (simp add: epochSlots_def)
next
  fix i assume "i < length (map unat (epochSlots e))"
  then have i: "i < 32" by (simp add: epochSlots_def)
  then have "map unat (epochSlots e) ! i = 32 * unat e + 31 - i"
    using unat_epoch_slot [OF assms i] by (simp add: epochSlots_def del: upt_Suc)
  moreover have "rev [32 * unat e ..< 32 * unat e + 32] ! i = 32 * unat e + 31 - i"
    using i by (simp add: rev_nth)
  ultimately show "map unat (epochSlots e) ! i = rev [32 * unat e ..< 32 * unat e + 32] ! i"
    by simp
qed

lemma upt3: "[m..<Suc (Suc (Suc m))] = [m, Suc m, Suc (Suc m)]"
  by (simp add: upt_conv_Cons)

lemma unat_epochWindow:
  "map unat (epochWindow E) = rev [unat E - min 2 (unat E) ..< Suc (unat E)]"
proof (cases "2 \<le> E")
  case True
  then have u: "2 \<le> unat E" by (simp add: word_le_nat_alt)
  then obtain m where m: "unat E = Suc (Suc m)"
    by (cases "unat E"; cases "unat E - 1") auto
  from u have "E \<noteq> 0" by auto
  then have e1: "unat (E - 1) = Suc m" using m by (simp add: unat_minus_one)
  have e2: "unat (E - 2) = m" using True m by (simp add: unat_sub)
  have "min 2 (Suc (Suc m)) = 2" by simp
  then have "rev [unat E - min 2 (unat E) ..< Suc (unat E)] = [Suc (Suc m), Suc m, m]"
    unfolding m by (simp only: diff_Suc_Suc numeral_2_eq_2 diff_zero upt3) simp
  then show ?thesis by (simp add: epochWindow_ge2 [OF True] m e1 e2)
next
  case False
  then have "E = 0 \<or> E = 1" using word_lt_2 by (simp add: not_le)
  then show ?thesis
  proof
    assume "E = 0"
    then show ?thesis by (simp add: epochWindow_0)
  next
    assume "E = 1"
    then show ?thesis by (simp add: epochWindow_1 upt_conv_Cons)
  qed
qed

lemma epochWindow_le: "e \<in> set (epochWindow E) \<Longrightarrow> unat e \<le> unat E"
proof -
  assume "e \<in> set (epochWindow E)"
  then have "unat e \<in> set (map unat (epochWindow E))" by simp
  then show ?thesis unfolding unat_epochWindow by auto
qed

lemma head_epoch_bound: "unat (headSlot div 32 :: u64) * 32 + 31 < 2 ^ 64"
proof -
  have "unat headSlot < 2 ^ 64" using unsigned_less [of headSlot] by simp
  then have "unat headSlot < 576460752303423488 * 32" by simp
  then have "unat headSlot div 32 < 576460752303423488" by (rule less_mult_imp_div_less)
  then have "unat headSlot div 32 * 32 + 31 < 2 ^ 64" by simp
  then show ?thesis by (simp add: unat_div)
qed

lemma window_epoch_slots:
  assumes "e \<in> set (epochWindow (headSlot div 32))"
  shows "map unat (epochSlots e) = rev [32 * unat e ..< 32 * unat e + 32]"
proof (rule unat_epochSlots)
  from epochWindow_le [OF assms] head_epoch_bound [of headSlot]
  show "unat e * 32 + 31 < 2 ^ 64" by simp
qed

subsection \<open>Invariants of the runs\<close>

lemma inFlight_update:
  assumes "i < length ws"
  shows "inFlight (ws[i := w]) + held (ws ! i) = inFlight ws + held w"
proof -
  have m: "mset ws = add_mset (ws ! i) (mset ws - {#ws ! i#})"
    using assms by simp
  have "inFlight (ws[i := w]) = held w + sum_mset (image_mset held (mset ws - {#ws ! i#}))"
    using assms by (simp add: inFlight_def mset_update)
  moreover have "inFlight ws = held (ws ! i) + sum_mset (image_mset held (mset ws - {#ws ! i#}))"
    unfolding inFlight_def by (subst m) simp
  ultimately show ?thesis by simp
qed

lemma inFlight_replicate: "inFlight (replicate n WRecv) = {#}"
  by (simp add: inFlight_def)

lemma weight_update:
  assumes "i < length ws"
  shows "sum_list (map workerWeight (ws[i := w])) + workerWeight (ws ! i)
     = sum_list (map workerWeight ws) + workerWeight w"
  using assms
proof (induction ws arbitrary: i)
  case Nil
  then show ?case by simp
next
  case (Cons a ws)
  then show ?case by (cases i) (simp_all add: add.assoc add.left_commute)
qed

lemma scanInv_start:
  "scanInv endEpoch (produceAll endEpoch startEpoch (startEpoch * 32 + 31)) (scanStart startEpoch)"
  by (simp add: scanInv_def producerInv_def scanStart_def slotsPerEpoch_def Let_def
      inFlight_replicate maxConcurrency_def list_all_iff)

lemma scanInv_Expire:
  assumes "scanInv endEpoch full s" and "producer s \<noteq> PReturned"
  shows "scanInv endEpoch full (s\<lparr>ctxDone := True\<rparr>)"
  using assms unfolding scanInv_def producerInv_def
  by (cases "producer s") (simp_all)


lemma afterSelect_False:
  "afterSelect endEpoch epoch slot False = PClose \<and> produceAll endEpoch epoch slot = [slot]
   \<or> (\<exists>epoch' slot'. afterSelect endEpoch epoch slot False = PCheck epoch' slot' False
         \<and> produceAll endEpoch epoch slot = slot # produceAll endEpoch epoch' slot')"
  by (subst (1 2) produceAll.simps) (auto simp: afterSelect_def Let_def)

lemma afterSelect_True:
  "afterSelect endEpoch epoch slot True = PClose
   \<or> (slot \<noteq> epoch * slotsPerEpoch
       \<and> afterSelect endEpoch epoch slot True = PCheck epoch (slot - 1) True
       \<and> produceAll endEpoch epoch slot = slot # produceAll endEpoch epoch (slot - 1))"
  by (subst produceAll.simps) (auto simp: afterSelect_def Let_def)

lemma scanInv_producer:
  assumes inv: "scanInv endEpoch full s" and st: "producerStep endEpoch pick s = Some s'"
  shows "scanInv endEpoch full s'"
proof (cases "producer s")
  case (PCheck epoch slot aborted)
  with st have s': "s' = (if aborted \<or> ctxDone s then s\<lparr>producer := PClose\<rparr>
      else s\<lparr>producer := PSend epoch slot\<rparr>)"
    by (auto simp: producerStep_def Let_def)
  show ?thesis
    using inv PCheck unfolding scanInv_def producerInv_def s' by (auto split: if_splits)
next
  case (PSend epoch slot)
  show ?thesis
  proof (cases "ctxDone s \<and> (pick \<or> \<not> length (jobs s) < 2 * maxConcurrency)")
    case True
    with st PSend have s': "s' = s\<lparr>producer := afterSelect endEpoch epoch slot True\<rparr>"
      by (auto simp: producerStep_def Let_def)
    from afterSelect_True [of endEpoch epoch slot] show ?thesis
      using inv PSend True unfolding scanInv_def producerInv_def s' by auto
  next
    case False
    with st PSend have room: "length (jobs s) < 2 * maxConcurrency"
      and s': "s' = s\<lparr>producer := afterSelect endEpoch epoch slot False,
          jobs := jobs s @ [slot], sent := sent s @ [slot]\<rparr>"
      by (auto simp: producerStep_def Let_def split: if_splits)
    from inv PSend have nc: "\<not> closed s" and full: "sent s @ produceAll endEpoch epoch slot = full"
      unfolding scanInv_def producerInv_def by auto
    from inv nc have ne: "WExited \<in> set (workers s) \<longrightarrow> ctxDone s"
      unfolding scanInv_def producerInv_def by auto
    from afterSelect_False [of endEpoch epoch slot] show ?thesis
      using inv PSend full ne unfolding scanInv_def producerInv_def s'
      by (auto simp: ac_simps)
  qed
next
  case PClose
  with st have s': "s' = s\<lparr>producer := PWait, closed := True\<rparr>"
    by (auto simp: producerStep_def)
  show ?thesis
    using inv PClose unfolding scanInv_def producerInv_def s' by auto
next
  case PWait
  with st have ex: "list_all (\<lambda>w. w = WExited) (workers s)"
    and s': "s' = s\<lparr>producer := PReturned,
        returned := Some (slotsScanned s, updates s,
                          if ctxDone s then Some ContextError else None)\<rparr>"
    by (auto simp: producerStep_def split: if_splits)
  show ?thesis
    using inv PWait ex unfolding scanInv_def producerInv_def s' by auto
next
  case PReturned
  with st show ?thesis by (simp add: producerStep_def)
qed


lemma set_update_cases: "x \<in> set (ws[i := w]) \<Longrightarrow> x = w \<or> x \<in> set ws"
  using set_update_subset_insert [of ws i w] by auto

lemma scanInv_worker:
  assumes inv: "scanInv endEpoch full s" and st: "workerStep i u s = Some s'"
  shows "scanInv endEpoch full s'"
proof -
  from st have i: "i < length (workers s)"
    by (auto simp: workerStep_def split: if_splits)
  from inv have notret: "producer s \<noteq> PReturned"
  proof (rule contrapos_pn)
    assume "producer s = PReturned"
    with inv have "list_all (\<lambda>w. w = WExited) (workers s)" unfolding scanInv_def by simp
    with i have "workers s ! i = WExited" by (simp add: list_all_length)
    with st i show "\<not> scanInv endEpoch full s" by (simp add: workerStep_def)
  qed
  show ?thesis
  proof (cases "workers s ! i")
    case WRecv
    show ?thesis
    proof (cases "jobs s")
      case Nil
      with st i WRecv have cl: "closed s" and s': "s' = s\<lparr>workers := (workers s)[i := WExited]\<rparr>"
        by (auto simp: workerStep_def split: if_splits)
      have fl: "inFlight ((workers s)[i := WExited]) = inFlight (workers s)"
        using inFlight_update [OF i, of WExited] WRecv by simp
      show ?thesis
        using inv cl Nil notret unfolding scanInv_def s'
        by (auto simp: fl)
    next
      case (Cons slot rest)
      with st i WRecv
      have s': "s' = s\<lparr>workers := (workers s)[i := WCheck slot], jobs := rest\<rparr>"
        by (auto simp: workerStep_def)
      have fl: "inFlight ((workers s)[i := WCheck slot]) = inFlight (workers s) + {#slot#}"
        using inFlight_update [OF i, of "WCheck slot"] WRecv by simp
      from inv Cons have ne: "WExited \<in> set (workers s) \<longrightarrow> ctxDone s"
        unfolding scanInv_def by auto
      show ?thesis
        using inv Cons notret ne unfolding scanInv_def s'
        by (auto simp: fl dest: set_update_cases)
    qed
  next
    case (WCheck slot)
    show ?thesis
    proof (cases "ctxDone s")
      case True
      with st i WCheck have s': "s' = s\<lparr>workers := (workers s)[i := WExited]\<rparr>"
        by (auto simp: workerStep_def)
      have fl: "inFlight ((workers s)[i := WExited]) + {#slot#} = inFlight (workers s)"
        using inFlight_update [OF i, of WExited] WCheck by simp
      have sub: "mset (jobs s) + inFlight ((workers s)[i := WExited]) + mset (map fst (processed s))
          \<subseteq># mset (jobs s) + inFlight (workers s) + mset (map fst (processed s))"
        unfolding fl [symmetric] by simp
      from inv have "mset (jobs s) + inFlight (workers s) + mset (map fst (processed s))
          \<subseteq># mset (sent s)"
        unfolding scanInv_def by blast
      with sub have post: "mset (jobs s) + inFlight ((workers s)[i := WExited])
          + mset (map fst (processed s)) \<subseteq># mset (sent s)"
        by (rule subset_mset.order_trans)
      show ?thesis
        using inv True notret post unfolding scanInv_def s'
        by auto
    next
      case False
      with st i WCheck have s': "s' = s\<lparr>workers := (workers s)[i := WRun slot]\<rparr>"
        by (auto simp: workerStep_def)
      have fl: "inFlight ((workers s)[i := WRun slot]) = inFlight (workers s)"
        using inFlight_update [OF i, of "WRun slot"] WCheck by simp
      show ?thesis
        using inv False notret unfolding scanInv_def s'
        by (auto simp: fl dest: set_update_cases)
    qed
  next
    case (WRun slot)
    with st i have s': "s' = s\<lparr>workers := (workers s)[i := WRecv],
        slotsScanned := slotsScanned s + 1, updates := updates s + u,
        processed := processed s @ [(slot, u)]\<rparr>"
      by (auto simp: workerStep_def)
    have fl: "inFlight ((workers s)[i := WRecv]) + {#slot#} = inFlight (workers s)"
      using inFlight_update [OF i, of WRecv] WRun by simp
    show ?thesis
      using inv notret unfolding scanInv_def s'
      by (auto simp: fl [symmetric] dest: set_update_cases)
  next
    case WExited
    with st i show ?thesis by (simp add: workerStep_def)
  qed
qed

lemma scanInv_step:
  assumes "scanInv endEpoch full s" and "step endEpoch ev s = Some s'"
  shows "scanInv endEpoch full s'"
proof (cases ev)
  case Expire
  with assms(2) have "producer s \<noteq> PReturned" and "s' = s\<lparr>ctxDone := True\<rparr>"
    by (auto split: if_splits)
  with assms(1) show ?thesis by (simp add: scanInv_Expire)
next
  case (Produce pick)
  with assms show ?thesis by (simp add: scanInv_producer)
next
  case (Work i u)
  with assms show ?thesis by (simp add: scanInv_worker)
qed

lemma scanInv_run:
  assumes "run endEpoch evs s = Some s'" and "scanInv endEpoch full s"
  shows "scanInv endEpoch full s'"
  using assms
proof (induction evs arbitrary: s)
  case Nil
  then show ?case by simp
next
  case (Cons ev evs)
  then obtain s1 where s1: "step endEpoch ev s = Some s1" and r: "run endEpoch evs s1 = Some s'"
    by (auto split: option.splits)
  from scanInv_step [OF Cons.prems(2) s1] r show ?case by (rule Cons.IH [rotated])
qed

lemma run_append:
  "run endEpoch (evs @ evs') s
     = (case run endEpoch evs s of None \<Rightarrow> None | Some s' \<Rightarrow> run endEpoch evs' s')"
  by (induction evs arbitrary: s) (auto split: option.splits)

lemma step_ctxDone:
  assumes "step endEpoch ev s = Some s'"
  shows "ctxDone s' \<longleftrightarrow> ctxDone s \<or> ev = Expire"
proof (cases ev)
  case Expire
  with assms show ?thesis by (auto split: if_splits)
next
  case (Produce pick)
  with assms show ?thesis
    by (cases "producer s") (auto simp: producerStep_def Let_def split: if_splits)
next
  case (Work i u)
  with assms show ?thesis
    by (cases "workers s ! i"; cases "jobs s") (auto simp: workerStep_def split: if_splits)
qed

lemma run_ctxDone:
  assumes "run endEpoch evs s = Some s'"
  shows "ctxDone s' \<longleftrightarrow> ctxDone s \<or> Expire \<in> set evs"
  using assms
proof (induction evs arbitrary: s)
  case Nil
  then show ?case by simp
next
  case (Cons ev evs)
  then obtain s1 where s1: "step endEpoch ev s = Some s1" and r: "run endEpoch evs s1 = Some s'"
    by (auto split: option.splits)
  from Cons.IH [OF r] step_ctxDone [OF s1] show ?case by auto
qed

text \<open>Each step of a goroutine lowers the weight.\<close>

lemma producer_weight:
  assumes "producerStep endEpoch pick s = Some s'"
  shows "scanWeight endEpoch s' < scanWeight endEpoch s"
proof (cases "producer s")
  case (PCheck epoch slot aborted)
  with assms produceAll_not_Nil [of endEpoch epoch slot] show ?thesis
    by (auto simp: producerStep_def Let_def scanWeight_def split: if_splits)
next
  case (PSend epoch slot)
  from afterSelect_True [of endEpoch epoch slot] afterSelect_False [of endEpoch epoch slot]
  show ?thesis
    using assms PSend
    by (auto simp: producerStep_def Let_def scanWeight_def split: if_splits)
next
  case PClose
  with assms show ?thesis by (auto simp: producerStep_def scanWeight_def)
next
  case PWait
  with assms show ?thesis by (auto simp: producerStep_def scanWeight_def split: if_splits)
next
  case PReturned
  with assms show ?thesis by (simp add: producerStep_def)
qed

lemma worker_weight:
  assumes "workerStep i u s = Some s'"
  shows "scanWeight endEpoch s' < scanWeight endEpoch s"
proof -
  from assms have i: "i < length (workers s)"
    by (auto simp: workerStep_def split: if_splits)
  note w = weight_update [OF i]
  show ?thesis
  proof (cases "workers s ! i")
    case WRecv
    with assms i w [of "WCheck (hd (jobs s))"] w [of WExited] show ?thesis
      by (cases "jobs s") (auto simp: workerStep_def scanWeight_def split: if_splits)
  next
    case (WCheck slot)
    with assms i w [of "WRun slot"] w [of WExited] show ?thesis
      by (auto simp: workerStep_def scanWeight_def split: if_splits)
  next
    case (WRun slot)
    with assms i w [of WRecv] show ?thesis
      by (auto simp: workerStep_def scanWeight_def)
  next
    case WExited
    with assms i show ?thesis by (simp add: workerStep_def)
  qed
qed

lemma step_weight:
  assumes "step endEpoch ev s = Some s'"
  shows "if ev = Expire then scanWeight endEpoch s' = scanWeight endEpoch s
         else scanWeight endEpoch s' < scanWeight endEpoch s"
proof (cases ev)
  case Expire
  with assms show ?thesis by (auto simp: scanWeight_def split: if_splits)
next
  case (Produce pick)
  with assms show ?thesis by (simp add: producer_weight)
next
  case (Work i u)
  with assms show ?thesis by (simp add: worker_weight)
qed

lemma run_weight:
  assumes "run endEpoch evs s = Some s'"
  shows "scanWeight endEpoch s' + length (filter (\<lambda>ev. ev \<noteq> Expire) evs) \<le> scanWeight endEpoch s"
  using assms
proof (induction evs arbitrary: s)
  case Nil
  then show ?case by simp
next
  case (Cons ev evs)
  then obtain s1 where s1: "step endEpoch ev s = Some s1" and r: "run endEpoch evs s1 = Some s'"
    by (auto split: option.splits)
  from Cons.IH [OF r] step_weight [OF s1] show ?case by (auto split: if_splits)
qed

subsection \<open>Progress, and what happens once the context is done\<close>

lemma worker_can_step:
  assumes "i < length (workers s)" and "workers s ! i \<noteq> WExited"
    and "jobs s \<noteq> [] \<or> closed s"
  shows "workerStep i u s \<noteq> None"
  using assms
  by (cases "workers s ! i"; cases "jobs s") (auto simp: workerStep_def)

lemma scan_progress:
  assumes inv: "scanInv endEpoch full s" and nr: "returned s = None"
  shows "\<exists>ev. ev \<noteq> Expire \<and> step endEpoch ev s \<noteq> None"
proof (cases "producer s")
  case (PCheck epoch slot aborted)
  then have "step endEpoch (Produce False) s \<noteq> None"
    by (simp add: producerStep_def Let_def)
  then show ?thesis by blast
next
  case (PSend epoch slot)
  show ?thesis
  proof (cases "ctxDone s \<or> length (jobs s) < 2 * maxConcurrency")
    case True
    with PSend have "step endEpoch (Produce True) s \<noteq> None"
      by (auto simp: producerStep_def Let_def)
    then show ?thesis by blast
  next
    case False
    then have ne: "jobs s \<noteq> []" by (auto simp: maxConcurrency_def)
    from inv have len: "0 < length (workers s)"
      unfolding scanInv_def by (simp add: maxConcurrency_def)
    have "workers s ! 0 \<noteq> WExited"
    proof
      assume "workers s ! 0 = WExited"
      with len have "WExited \<in> set (workers s)" by (metis nth_mem)
      with inv False have "closed s" unfolding scanInv_def by blast
      with inv PSend show False unfolding scanInv_def by simp
    qed
    with len ne have "step endEpoch (Work 0 0) s \<noteq> None"
      by (simp add: worker_can_step)
    then show ?thesis by blast
  qed
next
  case PClose
  then have "step endEpoch (Produce False) s \<noteq> None"
    by (simp add: producerStep_def)
  then show ?thesis by blast
next
  case PWait
  show ?thesis
  proof (cases "list_all (\<lambda>w. w = WExited) (workers s)")
    case True
    with PWait have "step endEpoch (Produce False) s \<noteq> None"
      by (simp add: producerStep_def)
    then show ?thesis by blast
  next
    case False
    then obtain i where i: "i < length (workers s)" "workers s ! i \<noteq> WExited"
      by (auto simp: list_all_length)
    from inv PWait have "closed s" unfolding scanInv_def by simp
    with i have "step endEpoch (Work i 0) s \<noteq> None"
      by (simp add: worker_can_step)
    then show ?thesis by blast
  qed
next
  case PReturned
  with inv nr show ?thesis unfolding scanInv_def by simp
qed

lemma scan_completion:
  assumes "scanInv endEpoch full s"
  shows "\<exists>evs s'. Expire \<notin> set evs \<and> run endEpoch evs s = Some s' \<and> returned s' \<noteq> None"
  using assms
proof (induction "scanWeight endEpoch s" arbitrary: s rule: less_induct)
  case less
  show ?case
  proof (cases "returned s")
    case (Some r)
    then have "Expire \<notin> set [] \<and> run endEpoch [] s = Some s \<and> returned s \<noteq> None" by simp
    then show ?thesis by blast
  next
    case None
    from scan_progress [OF less.prems None]
    obtain ev s1 where ev: "ev \<noteq> Expire" and s1: "step endEpoch ev s = Some s1" by auto
    from step_weight [OF s1] ev have "scanWeight endEpoch s1 < scanWeight endEpoch s" by simp
    moreover from less.prems s1 have "scanInv endEpoch full s1" by (rule scanInv_step)
    ultimately obtain evs s' where r: "Expire \<notin> set evs" "run endEpoch evs s1 = Some s'"
        "returned s' \<noteq> None"
      using less.hyps by blast
    from ev s1 r have "Expire \<notin> set (ev # evs) \<and> run endEpoch (ev # evs) s = Some s'
        \<and> returned s' \<noteq> None"
      by simp
    then show ?thesis by blast
  qed
qed

lemma sendPending_afterSelect [simp]: "sendPending (afterSelect endEpoch epoch slot aborted) = 0"
  by (simp add: afterSelect_def Let_def)

lemma running_update:
  assumes "i < length ws"
  shows "length (filter running (ws[i := w])) + (if running (ws ! i) then 1 else 0)
     = length (filter running ws) + (if running w then 1 else 0)"
  using assms
proof (induction ws arbitrary: i)
  case Nil
  then show ?case by simp
next
  case (Cons a ws)
  show ?case
  proof (cases i)
    case 0
    then show ?thesis by simp
  next
    case (Suc j)
    with Cons.prems have "j < length ws" by simp
    from Cons.IH [OF this] Suc show ?thesis by simp
  qed
qed

lemma producer_after_done:
  assumes "producerStep endEpoch pick s = Some s'" and "ctxDone s"
  shows "length (sent s') + sendPending (producer s') \<le> length (sent s) + sendPending (producer s)
     \<and> (sendPending (producer s) = 0 \<longrightarrow> sent s' = sent s \<and> sendPending (producer s') = 0)
     \<and> processed s' = processed s \<and> workers s' = workers s"
proof (cases "producer s")
  case (PCheck epoch slot aborted)
  with assms have "s' = s\<lparr>producer := PClose\<rparr>"
    by (simp add: producerStep_def Let_def)
  with PCheck show ?thesis by simp
next
  case (PSend epoch slot)
  with assms have "s' = s\<lparr>producer := afterSelect endEpoch epoch slot True\<rparr>
      \<or> s' = s\<lparr>producer := afterSelect endEpoch epoch slot False,
                 jobs := jobs s @ [slot], sent := sent s @ [slot]\<rparr>"
    by (simp add: producerStep_def Let_def split: if_splits)
  with PSend show ?thesis by auto
next
  case PClose
  with assms have "s' = s\<lparr>producer := PWait, closed := True\<rparr>"
    by (simp add: producerStep_def)
  with PClose show ?thesis by simp
next
  case PWait
  with assms have "s' = s\<lparr>producer := PReturned,
        returned := Some (slotsScanned s, updates s,
                          if ctxDone s then Some ContextError else None)\<rparr>"
    by (simp add: producerStep_def split: if_splits)
  with PWait show ?thesis by simp
next
  case PReturned
  with assms show ?thesis by (simp add: producerStep_def)
qed

lemma worker_after_done:
  assumes "workerStep i u s = Some s'" and "ctxDone s"
  shows "sent s' = sent s \<and> producer s' = producer s
     \<and> length (processed s') + length (filter running (workers s'))
          \<le> length (processed s) + length (filter running (workers s))"
proof -
  from assms(1) have i: "i < length (workers s)"
    by (auto simp: workerStep_def split: if_splits)
  note r = running_update [OF i]
  show ?thesis
  proof (cases "workers s ! i")
    case WRecv
    show ?thesis
    proof (cases "jobs s")
      case Nil
      with assms i WRecv have "s' = s\<lparr>workers := (workers s)[i := WExited]\<rparr>"
        by (simp add: workerStep_def split: if_splits)
      with r [of WExited] WRecv show ?thesis by simp
    next
      case (Cons slot rest)
      with assms i WRecv have "s' = s\<lparr>workers := (workers s)[i := WCheck slot], jobs := rest\<rparr>"
        by (simp add: workerStep_def)
      with r [of "WCheck slot"] WRecv show ?thesis by simp
    qed
  next
    case (WCheck slot)
    with assms i have "s' = s\<lparr>workers := (workers s)[i := WExited]\<rparr>"
      by (simp add: workerStep_def)
    with r [of WExited] WCheck show ?thesis by simp
  next
    case (WRun slot)
    with assms i have "s' = s\<lparr>workers := (workers s)[i := WRecv],
        slotsScanned := slotsScanned s + 1, updates := updates s + u,
        processed := processed s @ [(slot, u)]\<rparr>"
      by (simp add: workerStep_def)
    with r [of WRecv] WRun show ?thesis by simp
  next
    case WExited
    with assms i show ?thesis by (simp add: workerStep_def)
  qed
qed

lemma step_after_done:
  assumes "step endEpoch ev s = Some s'" and "ctxDone s"
  shows "length (sent s') + sendPending (producer s') \<le> length (sent s) + sendPending (producer s)"
    and "sendPending (producer s) = 0 \<Longrightarrow> sent s' = sent s \<and> sendPending (producer s') = 0"
    and "length (processed s') + length (filter running (workers s'))
          \<le> length (processed s) + length (filter running (workers s))"
    and "ctxDone s'"
proof -
  show "ctxDone s'" using step_ctxDone [OF assms(1)] assms(2) by simp
  have all: "length (sent s') + sendPending (producer s') \<le> length (sent s) + sendPending (producer s)
     \<and> (sendPending (producer s) = 0 \<longrightarrow> sent s' = sent s \<and> sendPending (producer s') = 0)
     \<and> length (processed s') + length (filter running (workers s'))
          \<le> length (processed s) + length (filter running (workers s))"
  proof (cases ev)
    case Expire
    with assms(1) have "s' = s\<lparr>ctxDone := True\<rparr>" by (simp split: if_splits)
    then show ?thesis by simp
  next
    case (Produce pick)
    with assms(1) have "producerStep endEpoch pick s = Some s'" by simp
    from producer_after_done [OF this assms(2)] show ?thesis by simp
  next
    case (Work i u)
    with assms(1) have "workerStep i u s = Some s'" by simp
    from worker_after_done [OF this assms(2)] show ?thesis by simp
  qed
  from all show "length (sent s') + sendPending (producer s')
      \<le> length (sent s) + sendPending (producer s)"
    by blast
  from all show "sent s' = sent s \<and> sendPending (producer s') = 0"
    if "sendPending (producer s) = 0"
    using that by blast
  from all show "length (processed s') + length (filter running (workers s'))
          \<le> length (processed s) + length (filter running (workers s))"
    by blast
qed

lemma run_after_done:
  assumes "run endEpoch evs s = Some s'" and "ctxDone s"
  shows "length (sent s') + sendPending (producer s') \<le> length (sent s) + sendPending (producer s)"
    and "sendPending (producer s) = 0 \<Longrightarrow> sent s' = sent s"
    and "length (processed s') + length (filter running (workers s'))
          \<le> length (processed s) + length (filter running (workers s))"
proof -
  have "(length (sent s') + sendPending (producer s') \<le> length (sent s) + sendPending (producer s))
     \<and> (sendPending (producer s) = 0 \<longrightarrow> sent s' = sent s \<and> sendPending (producer s') = 0)
     \<and> (length (processed s') + length (filter running (workers s'))
          \<le> length (processed s) + length (filter running (workers s)))"
    using assms
  proof (induction evs arbitrary: s)
    case Nil
    then show ?case by simp
  next
    case (Cons ev evs)
    then obtain s1 where s1: "step endEpoch ev s = Some s1" and r: "run endEpoch evs s1 = Some s'"
      by (auto split: option.splits)
    note a = step_after_done [OF s1 Cons.prems(2)]
    from Cons.IH [OF r a(4)] a(1,2,3) show ?case by auto
  qed
  then show "length (sent s') + sendPending (producer s') \<le> length (sent s) + sendPending (producer s)"
    and "sendPending (producer s) = 0 \<Longrightarrow> sent s' = sent s"
    and "length (processed s') + length (filter running (workers s'))
          \<le> length (processed s) + length (filter running (workers s))"
    by blast+
qed

subsection \<open>The window and the deadline\<close>

lemma scanStart_ctxDone: "\<not> ctxDone (scanStart startEpoch)"
  by (simp add: scanStart_def Let_def)

lemma scan_reachable:
  assumes "run endEpoch evs (scanStart startEpoch) = Some s"
  shows "scanInv endEpoch (produceAll endEpoch startEpoch (startEpoch * 32 + 31)) s"
    and "ctxDone s \<longleftrightarrow> Expire \<in> set evs"
proof -
  show "scanInv endEpoch (produceAll endEpoch startEpoch (startEpoch * 32 + 31)) s"
    using assms scanInv_start by (rule scanInv_run)
  show "ctxDone s \<longleftrightarrow> Expire \<in> set evs"
    using run_ctxDone [OF assms] scanStart_ctxDone by simp
qed

lemma scanInv_prefix: "scanInv endEpoch full s \<Longrightarrow> \<exists>rest. sent s @ rest = full"
  unfolding scanInv_def by blast

lemma scanInv_returned:
  assumes "scanInv endEpoch full s" and "returned s \<noteq> None"
  shows "producer s = PReturned"
    and "returned s = Some (of_nat (length (processed s)), sum_list (map snd (processed s)),
                           if ctxDone s then Some ContextError else None)"
    and "\<not> ctxDone s \<Longrightarrow> sent s = full \<and> mset (map fst (processed s)) = mset (sent s)"
proof -
  from assms show p: "producer s = PReturned" unfolding scanInv_def by blast
  with assms(1) show "returned s = Some (of_nat (length (processed s)),
      sum_list (map snd (processed s)), if ctxDone s then Some ContextError else None)"
    unfolding scanInv_def by simp
  show "sent s = full \<and> mset (map fst (processed s)) = mset (sent s)" if nd: "\<not> ctxDone s"
  proof -
    from assms(1) p nd have full: "sent s = full"
      unfolding scanInv_def producerInv_def by simp
    from assms(1) p have ex: "list_all (\<lambda>w. w = WExited) (workers s)"
      unfolding scanInv_def by blast
    then have "image_mset held (mset (workers s)) = image_mset (\<lambda>w. {#}) (mset (workers s))"
      by (intro image_mset_cong) (auto simp: list_all_iff)
    then have fl: "inFlight (workers s) = {#}" by (simp add: inFlight_def)
    from assms(1) have len: "0 < length (workers s)"
      unfolding scanInv_def by (simp add: maxConcurrency_def)
    with ex have "WExited \<in> set (workers s)"
      by (cases "workers s") (auto simp: list_all_iff)
    with assms(1) nd have j: "jobs s = []" unfolding scanInv_def by blast
    from assms(1) nd have "mset (jobs s) + inFlight (workers s) + mset (map fst (processed s))
        = mset (sent s)"
      unfolding scanInv_def by blast
    with fl j full show ?thesis by simp
  qed
qed

lemma scanInv_processed:
  "scanInv endEpoch full s \<Longrightarrow> mset (map fst (processed s)) \<subseteq># mset (sent s)"
proof -
  assume "scanInv endEpoch full s"
  then have "mset (jobs s) + inFlight (workers s) + mset (map fst (processed s))
      \<subseteq># mset (sent s)"
    unfolding scanInv_def by blast
  then show ?thesis
    by (metis mset_subset_eq_add_right subset_mset.order_trans)
qed


lemma backfillRange_eq:
  "backfillRange headSlot
     = (headSlot div 32, if 2 \<le> headSlot div 32 then headSlot div 32 - 2 else 0)"
  by (simp add: backfillRange_def slotsPerEpoch_def Let_def)

lemma scanStart_32:
  "startEpoch * slotsPerEpoch + (slotsPerEpoch - 1) = startEpoch * 32 + 31"
  by (simp add: slotsPerEpoch_def)

lemma calm_no_Expire: "Expire \<notin> set (calmSchedule n)"
  by (auto simp: calmSchedule_def)

text \<open>
  Claim C6 (backfill window). \<open>Backfill\<close> passes the scan the epoch \<open>headSlot / 32\<close> and
  the lower bound \<open>headEpoch - 2\<close>, or 0 when \<open>headEpoch < 2\<close>. From there the producer
  loop enumerates the epochs from \<open>headEpoch\<close> down to \<open>max(0, headEpoch - 2)\<close>, newest
  first, and in each epoch its 32 slots from the highest to the lowest: in every run the
  slots sent are an initial part of that list, in a run without expiry that returns they
  are the whole list, and such a run exists. Read as numbers, the epochs are those from
  \<open>headEpoch - min(2, headEpoch)\<close> to \<open>headEpoch\<close> in descending order and the slots of
  epoch \<open>e\<close> are \<open>32 e + 31\<close> down to \<open>32 e\<close>, with no wrap-around. For
  \<open>headEpoch \<ge> 2\<close> the epochs are \<open>headEpoch\<close>, \<open>headEpoch - 1\<close>, \<open>headEpoch - 2\<close>
  and the slots are 96; for \<open>headEpoch < 2\<close> the last epoch is 0.
\<close>

theorem backfill_window:
  "backfillRange headSlot
     = (headSlot div 32, if 2 \<le> headSlot div 32 then headSlot div 32 - 2 else 0)
   \<and> (fst (getHeadSlot e api tr) = Inr headSlot \<longrightarrow>
        Backfill e api tr evs
          = map_option (\<lambda>r. snd (snd r))
              (scanEpochRange evs (fst (backfillRange headSlot)) (snd (backfillRange headSlot))))
   \<and> produceAll (snd (backfillRange headSlot)) (fst (backfillRange headSlot))
         (fst (backfillRange headSlot) * slotsPerEpoch + (slotsPerEpoch - 1))
       = windowSlots (headSlot div 32)
   \<and> (run (snd (backfillRange headSlot)) evs (scanStart (fst (backfillRange headSlot))) = Some s
       \<longrightarrow> (\<exists>rest. sent s @ rest = windowSlots (headSlot div 32))
           \<and> (returned s \<noteq> None \<and> Expire \<notin> set evs
                \<longrightarrow> sent s = windowSlots (headSlot div 32)))
   \<and> (\<exists>evs' s'. Expire \<notin> set evs'
         \<and> run (snd (backfillRange headSlot)) evs' (scanStart (fst (backfillRange headSlot)))
             = Some s'
         \<and> returned s' \<noteq> None)
   \<and> map unat (epochWindow (headSlot div 32))
       = rev [unat (headSlot div 32) - min 2 (unat (headSlot div 32))
                ..< Suc (unat (headSlot div 32))]
   \<and> (\<forall>ep \<in> set (epochWindow (headSlot div 32)).
         map unat (epochSlots ep) = rev [32 * unat ep ..< 32 * unat ep + 32])
   \<and> (2 \<le> headSlot div 32
       \<longrightarrow> epochWindow (headSlot div 32)
             = [headSlot div 32, headSlot div 32 - 1, headSlot div 32 - 2]
           \<and> length (windowSlots (headSlot div 32)) = 96)
   \<and> (headSlot div 32 < 2 \<longrightarrow> last (epochWindow (headSlot div 32)) = 0)"
proof -
  let ?E = "fst (backfillRange headSlot)" and ?end = "snd (backfillRange headSlot)"
  let ?W = "windowSlots (headSlot div 32)"
  have full: "produceAll ?end ?E (?E * 32 + 31) = ?W" by (rule produceAll_window)
  have range: "backfillRange headSlot
     = (headSlot div 32, if 2 \<le> headSlot div 32 then headSlot div 32 - 2 else 0)"
    by (rule backfillRange_eq)
  have call: "fst (getHeadSlot e api tr) = Inr headSlot \<longrightarrow>
        Backfill e api tr evs = map_option (\<lambda>r. snd (snd r)) (scanEpochRange evs ?E ?end)"
    by (cases "getHeadSlot e api tr"; cases "backfillRange headSlot";
        cases "scanEpochRange evs ?E ?end")
      (auto simp: Backfill_def)
  have enum: "produceAll ?end ?E (?E * slotsPerEpoch + (slotsPerEpoch - 1)) = ?W"
    unfolding scanStart_32 by (rule full)
  have runs: "run ?end evs (scanStart ?E) = Some s
       \<longrightarrow> (\<exists>rest. sent s @ rest = ?W)
           \<and> (returned s \<noteq> None \<and> Expire \<notin> set evs \<longrightarrow> sent s = ?W)"
  proof
    assume r: "run ?end evs (scanStart ?E) = Some s"
    note inv = scan_reachable(1) [OF r, unfolded full] and dn = scan_reachable(2) [OF r]
    have pre: "\<exists>rest. sent s @ rest = ?W" using inv by (rule scanInv_prefix)
    have whole: "returned s \<noteq> None \<and> Expire \<notin> set evs \<longrightarrow> sent s = ?W"
      using scanInv_returned(3) [OF inv] dn by blast
    from pre whole show "(\<exists>rest. sent s @ rest = ?W)
           \<and> (returned s \<noteq> None \<and> Expire \<notin> set evs \<longrightarrow> sent s = ?W)"
      by (rule conjI)
  qed
  have ex: "\<exists>evs' s'. Expire \<notin> set evs' \<and> run ?end evs' (scanStart ?E) = Some s'
         \<and> returned s' \<noteq> None"
    using scanInv_start by (rule scan_completion)
  have eps: "map unat (epochWindow (headSlot div 32))
       = rev [unat (headSlot div 32) - min 2 (unat (headSlot div 32))
                ..< Suc (unat (headSlot div 32))]"
    by (rule unat_epochWindow)
  have sls: "\<forall>ep \<in> set (epochWindow (headSlot div 32)).
         map unat (epochSlots ep) = rev [32 * unat ep ..< 32 * unat ep + 32]"
    using window_epoch_slots by blast
  have ge2: "2 \<le> headSlot div 32
       \<longrightarrow> epochWindow (headSlot div 32)
             = [headSlot div 32, headSlot div 32 - 1, headSlot div 32 - 2]
           \<and> length (windowSlots (headSlot div 32)) = 96"
    by (simp add: epochWindow_ge2 length_windowSlots)
  have lt2: "headSlot div 32 < 2 \<longrightarrow> last (epochWindow (headSlot div 32)) = 0"
    using word_lt_2 [of "headSlot div 32"] by (auto simp: epochWindow_0 epochWindow_1)
  show ?thesis
    by (intro conjI) (fact range call enum runs ex eps sls ge2 lt2)+
qed


theorem backfill_window_witness:
  "fst (getHeadSlot lateNode ''http://node'' []) = Inr 100
   \<and> backfillRange 100 = (3, 1)
   \<and> Backfill lateNode ''http://node'' [] (calmSchedule 96) = Some None
   \<and> map_option returned (run 1 (calmSchedule 96) (scanStart 3)) = Some (Some (96, 672, None))
   \<and> Expire \<notin> set (calmSchedule 96)
   \<and> map_option sent (run 1 (calmSchedule 96) (scanStart 3)) = Some (windowSlots 3)
   \<and> 2 \<le> (100 div 32 :: u64)
   \<and> epochWindow 3 = [3, 2, 1]
   \<and> length (windowSlots 3) = 96
   \<and> map unat (epochSlots 3) = rev [96 ..< 128]
   \<and> map unat (epochSlots 1) = rev [32 ..< 64]"
proof -
  have d: "(100 :: u64) div 32 = 3" by simp
  have g: "fst (getHeadSlot lateNode ''http://node'' []) = Inr 100"
    by (simp add: getHeadSlot_def Let_def late_headURL clientDo_def lateNode_def ParseUint_100)
  note t = backfill_window [where headSlot = 100 and e = lateNode and api = "''http://node''"
      and tr = "[]" and evs = "calmSchedule 96", unfolded d]
  have br: "backfillRange 100 = (3, 1)" using t [THEN conjunct1] by simp
  have ret: "map_option returned (run 1 (calmSchedule 96) (scanStart 3))
      = Some (Some (96, 672, None))"
    by code_simp
  then obtain s where r: "run 1 (calmSchedule 96) (scanStart 3) = Some s"
    and rs: "returned s = Some (96, 672, None)"
    by (cases "run 1 (calmSchedule 96) (scanStart 3)") auto
  have bf: "Backfill lateNode ''http://node'' [] (calmSchedule 96) = Some None"
    using t [THEN conjunct2, THEN conjunct1] g r rs by (simp add: br scanEpochRange_def)
  have ne: "Expire \<notin> set (calmSchedule 96)" by (rule calm_no_Expire)
  have "sent s = windowSlots 3"
    using t [THEN conjunct2, THEN conjunct2, THEN conjunct2, THEN conjunct1] r rs ne
    by (simp add: br)
  with r have snt: "map_option sent (run 1 (calmSchedule 96) (scanStart 3)) = Some (windowSlots 3)"
    by simp
  have two: "2 \<le> (100 div 32 :: u64)" by simp
  have win: "epochWindow 3 = [3, 2, 1] \<and> length (windowSlots 3) = 96"
    using t [THEN conjunct2, THEN conjunct2, THEN conjunct2, THEN conjunct2, THEN conjunct2,
        THEN conjunct2, THEN conjunct2, THEN conjunct1]
    by simp
  note sl = t [THEN conjunct2, THEN conjunct2, THEN conjunct2, THEN conjunct2, THEN conjunct2,
        THEN conjunct2, THEN conjunct1]
  have "(3 :: u64) \<in> set (epochWindow 3)" "(1 :: u64) \<in> set (epochWindow 3)"
    using win by simp_all
  with sl have "map unat (epochSlots 3) = rev [32 * unat (3 :: u64) ..< 32 * unat (3 :: u64) + 32]"
    and "map unat (epochSlots 1) = rev [32 * unat (1 :: u64) ..< 32 * unat (1 :: u64) + 32]"
    by blast+
  then have s3: "map unat (epochSlots 3) = rev [96 ..< 128]"
    and s1: "map unat (epochSlots 1) = rev [32 ..< 64]"
    by simp_all
  show ?thesis
    by (intro conjI) (fact g br bf ret ne snt two win [THEN conjunct1] win [THEN conjunct2] s3 s1)+
qed

(*THMS-END*)
end
